theory Spec2Isabelle
  imports Complex_Main "HOL-Library.AList" "HOL-Library.Sublist" "HOL-Library.Multiset"
begin

section \<open>JavaScript values\<close>

text \<open>
  The notes kept by \<^verbatim>\<open>useLocalStorageNotes\<close> (src/notes_frontend/src/App.js) are whatever
  \<^verbatim>\<open>JSON.parse\<close> returned at start-up, or objects built by \<^verbatim>\<open>createNote\<close> and
  \<^verbatim>\<open>updateNote\<close>. They are modelled as JavaScript values. An object is the list of its own
  properties in insertion order (integer-like keys, which JavaScript enumerates first, are
  not treated specially). Strings are lists of characters; numbers are reals (JSON has
  neither NaN nor infinities).
\<close>

datatype jsval =
    Undefined
  | Null
  | Bool bool
  | Num real
  | Str string
  | Arr "jsval list"
  | Obj "(string \<times> jsval) list"

datatype error = TypeError | SyntaxError | SecurityError | QuotaExceededError

text \<open>
  Reading a property \<^verbatim>\<open>v.k\<close>. On \<^verbatim>\<open>null\<close> and \<^verbatim>\<open>undefined\<close> it throws a TypeError.
  On the other non-objects the result is \<^verbatim>\<open>undefined\<close> for every key the program reads
  (\<^verbatim>\<open>id\<close>, \<^verbatim>\<open>title\<close>, \<^verbatim>\<open>body\<close>, \<^verbatim>\<open>updatedAt\<close>): none of them is a property of a
  boolean, number, string or array.
\<close>

fun get_prop :: "jsval \<Rightarrow> string \<Rightarrow> error + jsval" where
  "get_prop Undefined k = Inl TypeError"
| "get_prop Null k = Inl TypeError"
| "get_prop (Obj kvs) k = Inr (case map_of kvs k of None \<Rightarrow> Undefined | Some v \<Rightarrow> v)"
| "get_prop v k = Inr Undefined"

text \<open>Truthiness, as \<^verbatim>\<open>||\<close>, \<^verbatim>\<open>!\<close> and \<^verbatim>\<open>if\<close> test it.\<close>

fun truthy :: "jsval \<Rightarrow> bool" where
  "truthy Undefined = False"
| "truthy Null = False"
| "truthy (Bool b) = b"
| "truthy (Num x) = (x \<noteq> 0)"
| "truthy (Str s) = (s \<noteq> [])"
| "truthy (Arr xs) = True"
| "truthy (Obj kvs) = True"

text \<open>Decimal rendering of a non-negative integer, as a template literal prints it.\<close>

definition digit_char :: "nat \<Rightarrow> char" where
  "digit_char d = char_of (48 + d)"

fun decimal :: "nat \<Rightarrow> string" where
  "decimal n = (if n < 10 then [digit_char n] else decimal (n div 10) @ [digit_char (n mod 10)])"

declare decimal.simps [simp del]

text \<open>\<^verbatim>\<open>s.slice(a, b)\<close> for \<^verbatim>\<open>0 <= a <= b\<close>.\<close>

definition slice :: "nat \<Rightarrow> nat \<Rightarrow> 'a list \<Rightarrow> 'a list" where
  "slice a b s = take (b - a) (drop a s)"

text \<open>
  The own enumerable properties an object spread \<^verbatim>\<open>{...v}\<close> copies: those of an object,
  the indexed elements of an array or string, nothing for the other values. An object has
  each key once; a property list that repeats a key stands for the object that
  \<^const>\<open>get_prop\<close> reads from it, the one of the first occurrences
  (\<^const>\<open>AList.clearjunk\<close> drops the later ones and changes nothing else).
\<close>

fun own_props :: "jsval \<Rightarrow> (string \<times> jsval) list" where
  "own_props (Obj kvs) = AList.clearjunk kvs"
| "own_props (Arr xs) = zip (map decimal [0..<length xs]) xs"
| "own_props (Str s) = zip (map decimal [0..<length s]) (map (\<lambda>c. Str [c]) s)"
| "own_props v = []"

text \<open>
  Defining properties on an object under construction: an existing key keeps its place
  and takes the new value, a new key goes last.
\<close>

definition assign :: "(string \<times> jsval) list \<Rightarrow> (string \<times> jsval) list \<Rightarrow> (string \<times> jsval) list" where
  "assign target src = foldl (\<lambda>acc kv. AList.update (fst kv) (snd kv) acc) target src"

text \<open>\<^verbatim>\<open>{ ...a, ...b }\<close>\<close>

definition spread2 :: "jsval \<Rightarrow> jsval \<Rightarrow> jsval" where
  "spread2 a b = Obj (assign (assign [] (own_props a)) (own_props b))"

text \<open>\<^verbatim>\<open>{ ...a, k: v }\<close>\<close>

definition spread_with :: "jsval \<Rightarrow> string \<Rightarrow> jsval \<Rightarrow> jsval" where
  "spread_with a k v = Obj (AList.update k v (assign [] (own_props a)))"

text \<open>\<^verbatim>\<open>Array.prototype.map\<close> and \<^verbatim>\<open>Array.prototype.filter\<close> with a callback that may throw.\<close>

fun mapE :: "('a \<Rightarrow> error + 'b) \<Rightarrow> 'a list \<Rightarrow> error + 'b list" where
  "mapE f [] = Inr []"
| "mapE f (x # xs) =
     (case f x of
        Inl e \<Rightarrow> Inl e
      | Inr y \<Rightarrow> (case mapE f xs of Inl e \<Rightarrow> Inl e | Inr ys \<Rightarrow> Inr (y # ys)))"

fun filterE :: "('a \<Rightarrow> error + bool) \<Rightarrow> 'a list \<Rightarrow> error + 'a list" where
  "filterE p [] = Inr []"
| "filterE p (x # xs) =
     (case p x of
        Inl e \<Rightarrow> Inl e
      | Inr b \<Rightarrow> (case filterE p xs of Inl e \<Rightarrow> Inl e | Inr ys \<Rightarrow> Inr (if b then x # ys else ys)))"

section \<open>Creating a note\<close>

text \<open>
  What \<^verbatim>\<open>createNote\<close> reads from its environment: \<^verbatim>\<open>new Date().toISOString()\<close>,
  \<^verbatim>\<open>Date.now()\<close> (milliseconds since the epoch) and \<^verbatim>\<open>Math.random().toString(36)\<close>.
\<close>

record reading =
  iso_now :: string
  date_now :: nat
  random36 :: string

text \<open>\<^verbatim>\<open>`${Date.now()}-${Math.random().toString(36).slice(2, 8)}`\<close>\<close>

definition new_id :: "reading \<Rightarrow> string" where
  "new_id r = decimal (date_now r) @ ''-'' @ slice 2 8 (random36 r)"

definition createNote :: "reading \<Rightarrow> jsval" where
  "createNote r =
     Obj [(''id'', Str (new_id r)),
          (''title'', Str ''Untitled Note''),
          (''body'', Str ''''),
          (''updatedAt'', Str (iso_now r)),
          (''createdAt'', Str (iso_now r))]"

section \<open>The note store\<close>

text \<open>
  The two pieces of state of \<^verbatim>\<open>useLocalStorageNotes\<close>. The selection is \<^verbatim>\<open>null\<close> or a
  string: that is what the initialiser and \<^verbatim>\<open>addNote\<close> produce, and what the spec's
  \<^verbatim>\<open>select(id | null)\<close> takes.
\<close>

record store =
  "notes" :: "jsval list"
  selectedId :: "string option"

definition empty_store :: store where
  "empty_store = \<lparr>notes = [], selectedId = None\<rparr>"

text \<open>\<^verbatim>\<open>addNote\<close> returns the new id beside the new state.\<close>

definition addNote :: "reading \<Rightarrow> store \<Rightarrow> string \<times> store" where
  "addNote r st =
     (let n = createNote r
      in (new_id r, \<lparr>notes = n # notes st, selectedId = Some (new_id r)\<rparr>))"

text \<open>Several \<^verbatim>\<open>addNote\<close> calls in a row, each with its own readings.\<close>

definition add_many :: "reading list \<Rightarrow> store \<Rightarrow> store" where
  "add_many rs st = foldl (\<lambda>s r. snd (addNote r s)) st rs"

text \<open>
  The second argument of \<^verbatim>\<open>updateNote\<close>: a function of the note, or a value whose
  properties are merged into it.
\<close>

datatype updater = Func "jsval \<Rightarrow> error + jsval" | Fields jsval

definition apply_updater :: "updater \<Rightarrow> jsval \<Rightarrow> error + jsval" where
  "apply_updater u n = (case u of Func f \<Rightarrow> f n | Fields p \<Rightarrow> Inr (spread2 n p))"

text \<open>
  The callback of \<^verbatim>\<open>prev.map\<close> in \<^verbatim>\<open>updateNote\<close>. \<^verbatim>\<open>now\<close> is the value of
  \<^verbatim>\<open>new Date().toISOString()\<close>; the source reads the clock once for each matching note,
  the model takes one reading for the call (the same thing when at most one note has the
  id).
\<close>

definition update_one :: "string \<Rightarrow> string \<Rightarrow> updater \<Rightarrow> jsval \<Rightarrow> error + jsval" where
  "update_one now i u n =
     (case get_prop n ''id'' of
        Inl e \<Rightarrow> Inl e
      | Inr v \<Rightarrow>
          if v \<noteq> Str i then Inr n
          else (case apply_updater u n of
                  Inl e \<Rightarrow> Inl e
                | Inr next \<Rightarrow> Inr (spread_with next ''updatedAt'' (Str now))))"

definition updateNote :: "string \<Rightarrow> string \<Rightarrow> updater \<Rightarrow> store \<Rightarrow> error + store" where
  "updateNote now i u st =
     (case mapE (update_one now i u) (notes st) of
        Inl e \<Rightarrow> Inl e
      | Inr ns \<Rightarrow> Inr (st\<lparr>notes := ns\<rparr>))"

definition keep_other :: "string \<Rightarrow> jsval \<Rightarrow> error + bool" where
  "keep_other i n = (case get_prop n ''id'' of Inl e \<Rightarrow> Inl e | Inr v \<Rightarrow> Inr (v \<noteq> Str i))"

definition deleteNote :: "string \<Rightarrow> store \<Rightarrow> error + store" where
  "deleteNote i st =
     (case filterE (keep_other i) (notes st) of
        Inl e \<Rightarrow> Inl e
      | Inr ns \<Rightarrow>
          Inr \<lparr>notes = ns,
               selectedId = (if selectedId st = Some i then None else selectedId st)\<rparr>)"

text \<open>\<^verbatim>\<open>setSelectedId\<close>, exposed as it is.\<close>

definition setSelectedId :: "string option \<Rightarrow> store \<Rightarrow> store" where
  "setSelectedId sel st = st\<lparr>selectedId := sel\<rparr>"

section \<open>The search derivation of NoteList\<close>

text \<open>
  \<^verbatim>\<open>String.prototype.trim\<close> and \<^verbatim>\<open>toLowerCase\<close> on ASCII text: the white space characters
  are TAB, LF, VT, FF, CR and SPACE, and the letters A to Z are lowered; every other
  character is left as it is.
\<close>

definition is_space :: "char \<Rightarrow> bool" where
  "is_space c = (of_char c \<in> {9::nat, 10, 11, 12, 13, 32})"

definition trim :: "string \<Rightarrow> string" where
  "trim s = rev (dropWhile is_space (rev (dropWhile is_space s)))"

definition lower_char :: "char \<Rightarrow> char" where
  "lower_char c =
     (case map_of (zip ''ABCDEFGHIJKLMNOPQRSTUVWXYZ'' ''abcdefghijklmnopqrstuvwxyz'') c of
        None \<Rightarrow> c
      | Some l \<Rightarrow> l)"

definition toLowerCase :: "string \<Rightarrow> string" where
  "toLowerCase s = map lower_char s"

text \<open>\<^verbatim>\<open>hay.includes(needle)\<close>\<close>

fun str_includes :: "string \<Rightarrow> string \<Rightarrow> bool" where
  "str_includes [] needle = (needle = [])"
| "str_includes (c # cs) needle = (prefix needle (c # cs) \<or> str_includes cs needle)"

text \<open>\<^verbatim>\<open>(v || '').toLowerCase()\<close>: only a string has the method.\<close>

definition or_empty :: "jsval \<Rightarrow> jsval" where
  "or_empty v = (if truthy v then v else Str [])"

fun lowered :: "jsval \<Rightarrow> error + string" where
  "lowered (Str s) = Inr (toLowerCase s)"
| "lowered v = Inl TypeError"

definition field_includes :: "string \<Rightarrow> jsval \<Rightarrow> string \<Rightarrow> error + bool" where
  "field_includes lower n k =
     (case get_prop n k of
        Inl e \<Rightarrow> Inl e
      | Inr v \<Rightarrow> (case lowered (or_empty v) of Inl e \<Rightarrow> Inl e | Inr s \<Rightarrow> Inr (str_includes s lower)))"

text \<open>The filter's predicate; \<^verbatim>\<open>||\<close> does not evaluate the body test when the title matches.\<close>

definition note_matches :: "string \<Rightarrow> jsval \<Rightarrow> error + bool" where
  "note_matches lower n =
     (case field_includes lower n ''title'' of
        Inl e \<Rightarrow> Inl e
      | Inr b \<Rightarrow> if b then Inr True else field_includes lower n ''body'')"

text \<open>
  The comparator \<^verbatim>\<open>(a, b) => new Date(b.updatedAt).getTime() - new Date(a.updatedAt).getTime()\<close>.
  \<^verbatim>\<open>getTime\<close> stands for the platform's \<^verbatim>\<open>v => new Date(v).getTime()\<close>, with \<^verbatim>\<open>None\<close> for
  NaN (an invalid date); a difference with NaN is NaN.
\<close>

definition compare_updated :: "(jsval \<Rightarrow> int option) \<Rightarrow> jsval \<Rightarrow> jsval \<Rightarrow> error + int option" where
  "compare_updated getTime a b =
     (case get_prop b ''updatedAt'' of
        Inl e \<Rightarrow> Inl e
      | Inr ub \<Rightarrow>
          (case get_prop a ''updatedAt'' of
             Inl e \<Rightarrow> Inl e
           | Inr ua \<Rightarrow>
               Inr (case getTime ub of
                      None \<Rightarrow> None
                    | Some tb \<Rightarrow> (case getTime ua of None \<Rightarrow> None | Some ta \<Rightarrow> Some (tb - ta)))))"

text \<open>
  \<^verbatim>\<open>Array.prototype.sort\<close> with a comparator. The sort is stable; a comparator result of
  NaN counts as 0; \<^verbatim>\<open>undefined\<close> elements go last and are never passed to the comparator.
  The model is insertion from the right, which calls the comparator on every element as
  soon as there are two of them. When the comparator is not a consistent ordering
  (which needs an invalid date here) JavaScript leaves the order to the implementation,
  and the model's order is then only one of the possible ones.
\<close>

definition positive :: "int option \<Rightarrow> bool" where
  "positive d = (case d of None \<Rightarrow> False | Some v \<Rightarrow> 0 < v)"

fun insertE :: "('a \<Rightarrow> 'a \<Rightarrow> error + int option) \<Rightarrow> 'a \<Rightarrow> 'a list \<Rightarrow> error + 'a list" where
  "insertE cmp x [] = Inr [x]"
| "insertE cmp x (y # ys) =
     (case cmp x y of
        Inl e \<Rightarrow> Inl e
      | Inr d \<Rightarrow>
          if positive d
          then (case insertE cmp x ys of Inl e \<Rightarrow> Inl e | Inr r \<Rightarrow> Inr (y # r))
          else Inr (x # y # ys))"

fun sortE :: "('a \<Rightarrow> 'a \<Rightarrow> error + int option) \<Rightarrow> 'a list \<Rightarrow> error + 'a list" where
  "sortE cmp [] = Inr []"
| "sortE cmp (x # xs) = (case sortE cmp xs of Inl e \<Rightarrow> Inl e | Inr s \<Rightarrow> insertE cmp x s)"

definition Array_sort :: "(jsval \<Rightarrow> jsval \<Rightarrow> error + int option) \<Rightarrow> jsval list \<Rightarrow> error + jsval list" where
  "Array_sort cmp xs =
     (case sortE cmp (filter (\<lambda>x. x \<noteq> Undefined) xs) of
        Inl e \<Rightarrow> Inl e
      | Inr s \<Rightarrow> Inr (s @ filter (\<lambda>x. x = Undefined) xs))"

text \<open>The \<^verbatim>\<open>filtered\<close> memo of \<^verbatim>\<open>NoteList\<close>.\<close>

definition filtered :: "(jsval \<Rightarrow> int option) \<Rightarrow> string \<Rightarrow> jsval list \<Rightarrow> error + jsval list" where
  "filtered getTime search ns =
     (let lower = toLowerCase (trim search)
      in case (if lower \<noteq> [] then filterE (note_matches lower) ns else Inr ns) of
           Inl e \<Rightarrow> Inl e
         | Inr data \<Rightarrow> Array_sort (compare_updated getTime) data)"

section \<open>Persistence\<close>

text \<open>
  \<^verbatim>\<open>localStorage\<close>: either the browser denies access to it (every call throws a
  SecurityError), or it holds string items. \<^verbatim>\<open>fits\<close> stands for the browser's quota
  policy: \<^verbatim>\<open>setItem\<close> throws a QuotaExceededError when the new contents do not fit.
\<close>

datatype localStorage = Denied | Items "string \<rightharpoonup> string"

definition STORAGE_KEY :: string where
  "STORAGE_KEY = ''notes-app:v1''"

definition SELECTED_KEY :: string where
  "SELECTED_KEY = STORAGE_KEY @ '':selected''"

fun getItem :: "localStorage \<Rightarrow> string \<Rightarrow> error + string option" where
  "getItem Denied k = Inl SecurityError"
| "getItem (Items m) k = Inr (m k)"

fun setItem :: "((string \<rightharpoonup> string) \<Rightarrow> bool) \<Rightarrow> localStorage \<Rightarrow> string \<Rightarrow> string \<Rightarrow> error + localStorage" where
  "setItem fits Denied k v = Inl SecurityError"
| "setItem fits (Items m) k v =
     (if fits (m(k \<mapsto> v)) then Inr (Items (m(k \<mapsto> v))) else Inl QuotaExceededError)"

fun removeItem :: "localStorage \<Rightarrow> string \<Rightarrow> error + localStorage" where
  "removeItem Denied k = Inl SecurityError"
| "removeItem (Items m) k = Inr (Items (m(k := None)))"

text \<open>
  The initialiser of the \<^verbatim>\<open>notes\<close> state. \<^verbatim>\<open>parse\<close> stands for the platform's
  \<^verbatim>\<open>JSON.parse\<close>, which throws a SyntaxError on text that is not JSON. \<^verbatim>\<open>read_notes\<close> is
  the body of the \<^verbatim>\<open>try\<close>, \<^verbatim>\<open>initial_notes\<close> adds the \<^verbatim>\<open>catch\<close>.
\<close>

definition read_notes :: "(string \<Rightarrow> error + jsval) \<Rightarrow> localStorage \<Rightarrow> error + jsval list" where
  "read_notes parse ls =
     (case getItem ls STORAGE_KEY of
        Inl e \<Rightarrow> Inl e
      | Inr raw \<Rightarrow>
          (case raw of
             None \<Rightarrow> Inr []
           | Some s \<Rightarrow>
               if s = [] then Inr []
               else (case parse s of
                       Inl e \<Rightarrow> Inl e
                     | Inr parsed \<Rightarrow> (case parsed of Arr xs \<Rightarrow> Inr xs | _ \<Rightarrow> Inr []))))"

definition initial_notes :: "(string \<Rightarrow> error + jsval) \<Rightarrow> localStorage \<Rightarrow> jsval list" where
  "initial_notes parse ls = (case read_notes parse ls of Inl e \<Rightarrow> [] | Inr ns \<Rightarrow> ns)"

text \<open>The initialiser of the \<^verbatim>\<open>selectedId\<close> state: \<^verbatim>\<open>raw || null\<close>, with no \<^verbatim>\<open>try\<close> around it.\<close>

definition initial_selectedId :: "localStorage \<Rightarrow> error + string option" where
  "initial_selectedId ls =
     (case getItem ls SELECTED_KEY of
        Inl e \<Rightarrow> Inl e
      | Inr raw \<Rightarrow> Inr (case raw of None \<Rightarrow> None | Some s \<Rightarrow> if s = [] then None else Some s))"

text \<open>The state with which the hook starts, or the error its first call throws.\<close>

definition load :: "(string \<Rightarrow> error + jsval) \<Rightarrow> localStorage \<Rightarrow> error + store" where
  "load parse ls =
     (let ns = initial_notes parse ls
      in case initial_selectedId ls of
           Inl e \<Rightarrow> Inl e
         | Inr sel \<Rightarrow> Inr \<lparr>notes = ns, selectedId = sel\<rparr>)"

text \<open>
  The two effects that mirror the state to storage; both swallow what \<^verbatim>\<open>localStorage\<close>
  throws. \<^verbatim>\<open>stringify\<close> stands for the platform's \<^verbatim>\<open>JSON.stringify\<close>.
\<close>

definition persist_notes ::
  "(jsval \<Rightarrow> string) \<Rightarrow> ((string \<rightharpoonup> string) \<Rightarrow> bool) \<Rightarrow> jsval list \<Rightarrow> localStorage \<Rightarrow> localStorage" where
  "persist_notes stringify fits ns ls =
     (case setItem fits ls STORAGE_KEY (stringify (Arr ns)) of Inl e \<Rightarrow> ls | Inr ls' \<Rightarrow> ls')"

definition persist_selected ::
  "((string \<rightharpoonup> string) \<Rightarrow> bool) \<Rightarrow> string option \<Rightarrow> localStorage \<Rightarrow> localStorage" where
  "persist_selected fits sel ls =
     (case (case sel of
              None \<Rightarrow> removeItem ls SELECTED_KEY
            | Some s \<Rightarrow> if s \<noteq> [] then setItem fits ls SELECTED_KEY s else removeItem ls SELECTED_KEY) of
        Inl e \<Rightarrow> ls
      | Inr ls' \<Rightarrow> ls')"

section \<open>Sequences of store operations\<close>

text \<open>
  The operations the hook returns, with what each reads from its environment: the readings
  of \<^verbatim>\<open>createNote\<close> for \<^verbatim>\<open>addNote\<close>, the clock for \<^verbatim>\<open>updateNote\<close>. A sequence runs until an
  operation throws.
\<close>

datatype op =
    Create reading
  | Update string string updater
  | Delete string
  | Select "string option"

fun step :: "op \<Rightarrow> store \<Rightarrow> error + store" where
  "step (Create r) st = Inr (snd (addNote r st))"
| "step (Update now i u) st = updateNote now i u st"
| "step (Delete i) st = deleteNote i st"
| "step (Select sel) st = Inr (setSelectedId sel st)"

fun run :: "op list \<Rightarrow> store \<Rightarrow> error + store" where
  "run [] st = Inr st"
| "run (x # xs) st = (case step x st of Inl e \<Rightarrow> Inl e | Inr st' \<Rightarrow> run xs st')"

section \<open>The platform's JSON\<close>

text \<open>
  \<^verbatim>\<open>JSON.stringify\<close> and \<^verbatim>\<open>JSON.parse\<close> as far as a snapshot of notes needs them: strings with
  their escapes, booleans and \<^verbatim>\<open>null\<close>, objects whose members are such values, and arrays
  of these. Numbers and deeper nesting are not modelled (\<^verbatim>\<open>stringify\<close> prints them as
  \<^verbatim>\<open>null\<close>, \<^verbatim>\<open>parse\<close> rejects them), nor is the white space that \<^verbatim>\<open>JSON.parse\<close> allows
  between tokens and \<^verbatim>\<open>JSON.stringify\<close> never writes. Characters are bytes: a character
  outside ASCII is the bytes of its UTF-8 form, which pass through unchanged.
\<close>

fun join :: "string \<Rightarrow> string list \<Rightarrow> string" where
  "join sep [] = []"
| "join sep [x] = x"
| "join sep (x # y # ys) = x @ sep @ join sep (y # ys)"

definition hex_char :: "nat \<Rightarrow> char" where
  "hex_char d = ''0123456789abcdef'' ! d"

definition hex_value :: "char \<Rightarrow> nat option" where
  "hex_value c =
     map_of (zip ''0123456789abcdefABCDEF''
       [0, 1, 2, 3, 4, 5, 6, 7, 8, 9, 10, 11, 12, 13, 14, 15, 10, 11, 12, 13, 14, 15]) c"

text \<open>
  A string literal as \<^verbatim>\<open>JSON.stringify\<close> writes it: the double quote (0x22) and the backslash
  (0x5C) behind a backslash, the control characters as \<^verbatim>\<open>\b \t \n \f \r\<close> or as a
  \<^verbatim>\<open>\u00XX\<close> escape, every other character as it is.
\<close>

definition escape_char :: "char \<Rightarrow> string" where
  "escape_char c =
     (if c = CHR 0x22 then [CHR 0x5C, CHR 0x22]
      else if c = CHR 0x5C then [CHR 0x5C, CHR 0x5C]
      else if c = CHR 0x08 then [CHR 0x5C, CHR ''b'']
      else if c = CHR 0x09 then [CHR 0x5C, CHR ''t'']
      else if c = CHR 0x0A then [CHR 0x5C, CHR ''n'']
      else if c = CHR 0x0C then [CHR 0x5C, CHR ''f'']
      else if c = CHR 0x0D then [CHR 0x5C, CHR ''r'']
      else if (of_char c :: nat) < 32
        then [CHR 0x5C, CHR ''u'', CHR ''0'', CHR ''0'',
              hex_char (of_char c div 16), hex_char (of_char c mod 16)]
      else [c])"

definition quote_json :: "string \<Rightarrow> string" where
  "quote_json s = CHR 0x22 # concat (map escape_char s) @ [CHR 0x22]"

text \<open>
  A string, a boolean or \<^verbatim>\<open>null\<close> as JSON text. \<^verbatim>\<open>undefined\<close> in an array is written as
  \<^verbatim>\<open>null\<close> too.
\<close>

fun scalar_text :: "jsval \<Rightarrow> string" where
  "scalar_text (Str s) = quote_json s"
| "scalar_text (Bool b) = (if b then ''true'' else ''false'')"
| "scalar_text v = ''null''"

definition member_json :: "string \<times> jsval \<Rightarrow> string" where
  "member_json kv = quote_json (fst kv) @ '':'' @ scalar_text (snd kv)"

text \<open>An object is written with its own properties in order, without those that are \<^verbatim>\<open>undefined\<close>.\<close>

fun value_text :: "jsval \<Rightarrow> string" where
  "value_text (Obj kvs) =
     ''{'' @ join '','' (map member_json (filter (\<lambda>kv. snd kv \<noteq> Undefined) (AList.clearjunk kvs))) @ ''}''"
| "value_text v = scalar_text v"

fun JSON_stringify :: "jsval \<Rightarrow> string" where
  "JSON_stringify (Arr xs) = ''['' @ join '','' (map value_text xs) @ '']''"
| "JSON_stringify v = value_text v"

text \<open>
  Reading back. The escapes of a string literal: a character behind a backslash, or
  \<^verbatim>\<open>\uXXXX\<close> with four hexadecimal digits, whose code unit is stored as its UTF-8 bytes
  (surrogate pairs are not combined).
\<close>

definition unescape :: "char \<Rightarrow> char option" where
  "unescape e =
     map_of [(CHR 0x22, CHR 0x22), (CHR 0x5C, CHR 0x5C), (CHR ''/'', CHR ''/''),
             (CHR ''b'', CHR 0x08), (CHR ''t'', CHR 0x09), (CHR ''n'', CHR 0x0A),
             (CHR ''f'', CHR 0x0C), (CHR ''r'', CHR 0x0D)] e"

definition code_unit :: "char \<Rightarrow> char \<Rightarrow> char \<Rightarrow> char \<Rightarrow> nat option" where
  "code_unit h1 h2 h3 h4 =
     (case hex_value h1 of None \<Rightarrow> None | Some a \<Rightarrow>
      (case hex_value h2 of None \<Rightarrow> None | Some b \<Rightarrow>
       (case hex_value h3 of None \<Rightarrow> None | Some c \<Rightarrow>
        (case hex_value h4 of None \<Rightarrow> None | Some d \<Rightarrow>
           Some (4096 * a + 256 * b + 16 * c + d)))))"

definition utf8 :: "nat \<Rightarrow> string" where
  "utf8 n =
     (if n < 128 then [char_of n]
      else if n < 2048 then [char_of (192 + n div 64), char_of (128 + n mod 64)]
      else [char_of (224 + n div 4096), char_of (128 + n div 64 mod 64), char_of (128 + n mod 64)])"

text \<open>
  The characters of a string literal after its opening quote, up to the closing quote: the
  string they denote and the text that follows. A control character in a literal is a
  syntax error.
\<close>

fun read_chars :: "string \<Rightarrow> (string \<times> string) option" where
  "read_chars [] = None"
| "read_chars (c # cs) =
     (if c = CHR 0x22 then Some ([], cs)
      else if c = CHR 0x5C then
        (case cs of
           [] \<Rightarrow> None
         | e # r \<Rightarrow>
             if e = CHR ''u'' then
               (case r of
                  h1 # h2 # h3 # h4 # r' \<Rightarrow>
                    (case code_unit h1 h2 h3 h4 of
                       None \<Rightarrow> None
                     | Some n \<Rightarrow>
                         (case read_chars r' of
                            None \<Rightarrow> None
                          | Some (s, rest) \<Rightarrow> Some (utf8 n @ s, rest)))
                | _ \<Rightarrow> None)
             else
               (case unescape e of
                  None \<Rightarrow> None
                | Some d \<Rightarrow>
                    (case read_chars r of
                       None \<Rightarrow> None
                     | Some (s, rest) \<Rightarrow> Some (d # s, rest))))
      else if (of_char c :: nat) < 32 then None
      else (case read_chars cs of None \<Rightarrow> None | Some (s, rest) \<Rightarrow> Some (c # s, rest)))"

text \<open>A string literal, \<^verbatim>\<open>null\<close>, \<^verbatim>\<open>true\<close> or \<^verbatim>\<open>false\<close> at the head of a text.\<close>

definition read_scalar :: "string \<Rightarrow> (jsval \<times> string) option" where
  "read_scalar s =
     (case s of
        [] \<Rightarrow> None
      | c # cs \<Rightarrow>
          if c = CHR 0x22 then
            (case read_chars cs of None \<Rightarrow> None | Some (t, r) \<Rightarrow> Some (Str t, r))
          else if take 4 s = ''null'' then Some (Null, drop 4 s)
          else if take 4 s = ''true'' then Some (Bool True, drop 4 s)
          else if take 5 s = ''false'' then Some (Bool False, drop 5 s)
          else None)"

text \<open>A member of an object: a string literal, a colon, a value.\<close>

definition read_member :: "string \<Rightarrow> ((string \<times> jsval) \<times> string) option" where
  "read_member s =
     (case s of
        [] \<Rightarrow> None
      | c # cs \<Rightarrow>
          if c = CHR 0x22 then
            (case read_chars cs of
               None \<Rightarrow> None
             | Some (k, r) \<Rightarrow>
                 (case r of
                    [] \<Rightarrow> None
                  | d # r' \<Rightarrow>
                      if d = CHR '':'' then
                        (case read_scalar r' of
                           None \<Rightarrow> None
                         | Some (v, rest) \<Rightarrow> Some ((k, v), rest))
                      else None))
          else None)"

text \<open>
  The members of an object after its opening brace, separated by commas, up to the closing
  brace. The first argument bounds the number of members still to be read; the callers
  pass the length of the text, which is enough.
\<close>

fun read_members :: "nat \<Rightarrow> string \<Rightarrow> ((string \<times> jsval) list \<times> string) option" where
  "read_members 0 s = None"
| "read_members (Suc n) s =
     (case read_member s of
        None \<Rightarrow> None
      | Some (m, r) \<Rightarrow>
          (case r of
             [] \<Rightarrow> None
           | c # r' \<Rightarrow>
               if c = CHR ''}'' then Some ([m], r')
               else if c = CHR '','' then
                 (case read_members n r' of
                    None \<Rightarrow> None
                  | Some (ms, rest) \<Rightarrow> Some (m # ms, rest))
               else None))"

text \<open>
  An object or a scalar. When a key is repeated, the later value is the one the object
  keeps, in the place of the first.
\<close>

definition read_value :: "string \<Rightarrow> (jsval \<times> string) option" where
  "read_value s =
     (case s of
        [] \<Rightarrow> None
      | c # cs \<Rightarrow>
          if c = CHR ''{'' then
            (case cs of
               [] \<Rightarrow> None
             | d # cs' \<Rightarrow>
                 if d = CHR ''}'' then Some (Obj [], cs')
                 else (case read_members (length cs) cs of
                         None \<Rightarrow> None
                       | Some (ms, rest) \<Rightarrow> Some (Obj (assign [] ms), rest)))
          else read_scalar s)"

text \<open>The elements of an array after its opening bracket, up to the closing bracket.\<close>

fun read_elements :: "nat \<Rightarrow> string \<Rightarrow> (jsval list \<times> string) option" where
  "read_elements 0 s = None"
| "read_elements (Suc n) s =
     (case read_value s of
        None \<Rightarrow> None
      | Some (v, r) \<Rightarrow>
          (case r of
             [] \<Rightarrow> None
           | c # r' \<Rightarrow>
               if c = CHR '']'' then Some ([v], r')
               else if c = CHR '','' then
                 (case read_elements n r' of
                    None \<Rightarrow> None
                  | Some (vs, rest) \<Rightarrow> Some (v # vs, rest))
               else None))"

definition read_json :: "string \<Rightarrow> (jsval \<times> string) option" where
  "read_json s =
     (case s of
        [] \<Rightarrow> None
      | c # cs \<Rightarrow>
          if c = CHR ''['' then
            (case cs of
               [] \<Rightarrow> None
             | d # cs' \<Rightarrow>
                 if d = CHR '']'' then Some (Arr [], cs')
                 else (case read_elements (length cs) cs of
                         None \<Rightarrow> None
                       | Some (vs, rest) \<Rightarrow> Some (Arr vs, rest)))
          else read_value s)"

text \<open>\<^verbatim>\<open>JSON.parse\<close>: the whole text must be one value.\<close>

definition JSON_parse :: "string \<Rightarrow> error + jsval" where
  "JSON_parse s =
     (case read_json s of
        None \<Rightarrow> Inl SyntaxError
      | Some (v, rest) \<Rightarrow> if rest = [] then Inr v else Inl SyntaxError)"

section \<open>Notions of the statements and proofs\<close>

text \<open>Reading a decimal numeral back, the left inverse of \<^const>\<open>decimal\<close>.\<close>

definition digits_value :: "string \<Rightarrow> nat" where
  "digits_value s = foldl (\<lambda>acc c. 10 * acc + (of_char c - 48)) 0 s"

text \<open>
  The values on which a property read does not throw: everything but \<^verbatim>\<open>null\<close> and
  \<^verbatim>\<open>undefined\<close>. Every note object is one.
\<close>

fun not_nullish :: "jsval \<Rightarrow> bool" where
  "not_nullish Undefined = False"
| "not_nullish Null = False"
| "not_nullish v = True"

text \<open>The own property \<open>k\<close> of an object, \<^verbatim>\<open>undefined\<close> when it has none.\<close>

definition lookup :: "(string \<times> jsval) list \<Rightarrow> string \<Rightarrow> jsval" where
  "lookup kvs k = (case map_of kvs k of None \<Rightarrow> Undefined | Some v \<Rightarrow> v)"

text \<open>What identifies a note: its \<^verbatim>\<open>id\<close> and \<^verbatim>\<open>createdAt\<close>.\<close>

definition identity :: "jsval \<Rightarrow> (error + jsval) \<times> (error + jsval)" where
  "identity n = (get_prop n ''id'', get_prop n ''createdAt'')"

text \<open>
  An update that merges fields other than \<^verbatim>\<open>id\<close> and \<^verbatim>\<open>createdAt\<close> into the note, as the
  title and body edits of the application do.
\<close>

fun edits_fields :: "updater \<Rightarrow> bool" where
  "edits_fields (Fields (Obj kvs)) = list_all (\<lambda>kv. fst kv \<noteq> ''id'' \<and> fst kv \<noteq> ''createdAt'') kvs"
| "edits_fields u = False"

fun edit_op :: "op \<Rightarrow> bool" where
  "edit_op (Update now i u) = edits_fields u"
| "edit_op x = True"

text \<open>The readings of the \<^const>\<open>Create\<close> operations of a sequence, in order.\<close>

fun created :: "op list \<Rightarrow> reading list" where
  "created [] = []"
| "created (Create r # xs) = r # created xs"
| "created (x # xs) = created xs"

text \<open>
  A field that the search can read: a string, or \<^verbatim>\<open>null\<close> or missing (\<^verbatim>\<open>undefined\<close>), which it
  reads as the empty string. A note is searchable when it is an object whose title and body
  are such fields.
\<close>

fun textual :: "jsval \<Rightarrow> bool" where
  "textual Undefined = True"
| "textual Null = True"
| "textual (Str s) = True"
| "textual v = False"

fun field_text :: "jsval \<Rightarrow> string" where
  "field_text (Str s) = s"
| "field_text v = []"

fun searchable :: "jsval \<Rightarrow> bool" where
  "searchable (Obj kvs) = (textual (lookup kvs ''title'') \<and> textual (lookup kvs ''body''))"
| "searchable v = False"

definition text_field :: "jsval \<Rightarrow> string \<Rightarrow> string" where
  "text_field n k = (case get_prop n k of Inl e \<Rightarrow> [] | Inr v \<Rightarrow> field_text v)"

text \<open>\<open>s\<close> contains \<open>q\<close> as a case-insensitive substring.\<close>

definition contains_ci :: "string \<Rightarrow> string \<Rightarrow> bool" where
  "contains_ci q s = sublist (toLowerCase q) (toLowerCase s)"

text \<open>The note has a title or body that contains \<open>q\<close> as a case-insensitive substring.\<close>

definition note_contains :: "string \<Rightarrow> jsval \<Rightarrow> bool" where
  "note_contains q n = (contains_ci q (text_field n ''title'') \<or> contains_ci q (text_field n ''body''))"

text \<open>
  A note whose \<^verbatim>\<open>updatedAt\<close> the platform reads as a date, and the milliseconds it reads.
\<close>

definition dated :: "(jsval \<Rightarrow> int option) \<Rightarrow> jsval \<Rightarrow> bool" where
  "dated getTime n = (case get_prop n ''updatedAt'' of Inl e \<Rightarrow> False | Inr v \<Rightarrow> getTime v \<noteq> None)"

definition updated_ms :: "(jsval \<Rightarrow> int option) \<Rightarrow> jsval \<Rightarrow> int" where
  "updated_ms getTime n =
     (case get_prop n ''updatedAt'' of
        Inl e \<Rightarrow> 0
      | Inr v \<Rightarrow> (case getTime v of None \<Rightarrow> 0 | Some t \<Rightarrow> t))"

text \<open>
  A well-formed note, in the words of the spec: an object that has all of the fields
  \<^verbatim>\<open>id\<close>, \<^verbatim>\<open>title\<close>, \<^verbatim>\<open>body\<close>, \<^verbatim>\<open>createdAt\<close> and \<^verbatim>\<open>updatedAt\<close>.
\<close>

fun well_formed :: "jsval \<Rightarrow> bool" where
  "well_formed (Obj kvs) =
     list_all (\<lambda>k. map_of kvs k \<noteq> None) [''id'', ''title'', ''body'', ''createdAt'', ''updatedAt'']"
| "well_formed v = False"

text \<open>
  A snapshot item from which no notes can be read: it is absent, or the empty string, or
  text that \<^verbatim>\<open>JSON.parse\<close> rejects, or JSON for something that is not an array.
\<close>

fun is_array :: "jsval \<Rightarrow> bool" where
  "is_array (Arr xs) = True"
| "is_array v = False"

definition unusable :: "(string \<Rightarrow> error + jsval) \<Rightarrow> string option \<Rightarrow> bool" where
  "unusable parse raw =
     (case raw of
        None \<Rightarrow> True
      | Some s \<Rightarrow> s = [] \<or> (case parse s of Inl e \<Rightarrow> True | Inr v \<Rightarrow> \<not> is_array v))"

text \<open>The selection that the selection item stands for: \<^verbatim>\<open>raw || null\<close>.\<close>

definition stored_selection :: "string option \<Rightarrow> string option" where
  "stored_selection raw = (case raw of None \<Rightarrow> None | Some s \<Rightarrow> if s = [] then None else Some s)"

text \<open>
  A well-formed note of the data model: an object, each key once, that has the fields
  \<^verbatim>\<open>id\<close>, \<^verbatim>\<open>title\<close>, \<^verbatim>\<open>body\<close>, \<^verbatim>\<open>createdAt\<close> and \<^verbatim>\<open>updatedAt\<close> and whose fields are strings
  (booleans and \<^verbatim>\<open>null\<close> are let through as well).
\<close>

fun scalar :: "jsval \<Rightarrow> bool" where
  "scalar (Str s) = True"
| "scalar (Bool b) = True"
| "scalar Null = True"
| "scalar v = False"

fun flat_object :: "jsval \<Rightarrow> bool" where
  "flat_object (Obj kvs) = (distinct (map fst kvs) \<and> list_all (\<lambda>kv. scalar (snd kv)) kvs)"
| "flat_object v = False"

definition well_formed_note :: "jsval \<Rightarrow> bool" where
  "well_formed_note n = (well_formed n \<and> flat_object n)"

section \<open>Example inputs\<close>

text \<open>
  Three clicks on "Add Note". The first two fall into the same millisecond and draw
  random numbers whose base-36 expansions agree on the six digits that \<^verbatim>\<open>slice(2, 8)\<close>
  keeps; the third comes a millisecond later.
\<close>

definition click1 :: reading where
  "click1 = \<lparr>iso_now = ''2024-01-01T00:00:00.000Z'', date_now = 1704067200000,
              random36 = ''0.abcdefgh1''\<rparr>"

definition click2 :: reading where
  "click2 = \<lparr>iso_now = ''2024-01-01T00:00:00.000Z'', date_now = 1704067200000,
              random36 = ''0.abcdefzz9''\<rparr>"

definition click3 :: reading where
  "click3 = \<lparr>iso_now = ''2024-01-01T00:00:00.001Z'', date_now = 1704067200001,
              random36 = ''0.abcdefzz9''\<rparr>"

text \<open>The two notes of the spec's scenario, and a store that holds them with B selected.\<close>

definition note_A :: jsval where
  "note_A = Obj [(''id'', Str ''1704067200000-abcdef''),
                 (''title'', Str ''Groceries''),
                 (''body'', Str ''milk, eggs''),
                 (''updatedAt'', Str ''2024-01-01T00:00:05.000Z''),
                 (''createdAt'', Str ''2024-01-01T00:00:00.000Z'')]"

definition note_B :: jsval where
  "note_B = Obj [(''id'', Str ''1704067201000-ghijkl''),
                 (''title'', Str ''Plan''),
                 (''body'', Str ''ship v2''),
                 (''updatedAt'', Str ''2024-01-01T00:00:09.000Z''),
                 (''createdAt'', Str ''2024-01-01T00:00:01.000Z'')]"

definition store_AB :: store where
  "store_AB = \<lparr>notes = [note_B, note_A], selectedId = Some ''1704067201000-ghijkl''\<rparr>"

text \<open>The same notes with a selection that names no note.\<close>

definition store_dangling :: store where
  "store_dangling = \<lparr>notes = [note_B, note_A], selectedId = Some ''gone''\<rparr>"

text \<open>
  The platform's \<^verbatim>\<open>v => new Date(v).getTime()\<close> on the time stamps of the examples:
  milliseconds since the epoch for these ISO strings. The examples apply it to no other
  value.
\<close>

definition iso_times :: "(string \<times> int) list" where
  "iso_times =
     [(''2024-01-01T00:00:00.000Z'', 1704067200000),
      (''2024-01-01T00:00:01.000Z'', 1704067201000),
      (''2024-01-01T00:00:05.000Z'', 1704067205000),
      (''2024-01-01T00:00:09.000Z'', 1704067209000),
      (''2024-01-01T00:00:10.000Z'', 1704067210000)]"

definition getTime_example :: "jsval \<Rightarrow> int option" where
  "getTime_example v = (case v of Str s \<Rightarrow> map_of iso_times s | _ \<Rightarrow> None)"

text \<open>A note without a title and a note whose body is \<^verbatim>\<open>null\<close>, as a snapshot can hold them.\<close>

definition note_untitled :: jsval where
  "note_untitled = Obj [(''id'', Str ''1704067205000-mnopqr''),
                        (''body'', Str ''Milk and honey''),
                        (''updatedAt'', Str ''2024-01-01T00:00:05.000Z''),
                        (''createdAt'', Str ''2024-01-01T00:00:05.000Z'')]"

definition note_bodyless :: jsval where
  "note_bodyless = Obj [(''id'', Str ''1704067209000-stuvwx''),
                        (''title'', Str ''Dairy''),
                        (''body'', Null),
                        (''updatedAt'', Str ''2024-01-01T00:00:09.000Z''),
                        (''createdAt'', Str ''2024-01-01T00:00:09.000Z'')]"

text \<open>
  The platform's \<^verbatim>\<open>JSON.stringify\<close> on arrays of objects whose fields are strings free of
  the characters that JSON escapes, as the notes of the examples are: the members in
  order, keys and values in double quotes.
\<close>

definition quoted :: "string \<Rightarrow> string" where
  "quoted s = CHR 0x22 # s @ [CHR 0x22]"

fun member_text :: "string \<times> jsval \<Rightarrow> string" where
  "member_text (k, Str s) = quoted k @ '':'' @ quoted s"
| "member_text (k, v) = quoted k @ '':null''"

fun object_text :: "jsval \<Rightarrow> string" where
  "object_text (Obj kvs) = ''{'' @ join '','' (map member_text kvs) @ ''}''"
| "object_text v = ''null''"

fun stringify_example :: "jsval \<Rightarrow> string" where
  "stringify_example (Arr xs) = ''['' @ join '','' (map object_text xs) @ '']''"
| "stringify_example v = ''null''"

text \<open>
  The platform's \<^verbatim>\<open>JSON.parse\<close> on the texts of the examples: four short JSON texts, the
  snapshot of the scenario notes, and a snapshot cut off in the middle, which is not JSON.
  The examples apply it to no other text.
\<close>

definition truncated_snapshot :: string where
  "truncated_snapshot = take 40 (stringify_example (Arr [note_B, note_A]))"

definition json_texts :: "(string \<times> jsval) list" where
  "json_texts =
     [(''[]'', Arr []),
      (''[{}]'', Arr [Obj []]),
      (''[null]'', Arr [Null]),
      (''{}'', Obj []),
      (stringify_example (Arr [note_B, note_A]), Arr [note_B, note_A])]"

definition parse_example :: "string \<Rightarrow> error + jsval" where
  "parse_example s = (case map_of json_texts s of None \<Rightarrow> Inl SyntaxError | Some v \<Rightarrow> Inr v)"

text \<open>
  Storage after a session with the scenario notes whose snapshot item was then cut off:
  the selection item still names note B.
\<close>

definition storage_truncated :: localStorage where
  "storage_truncated =
     Items [STORAGE_KEY \<mapsto> truncated_snapshot, SELECTED_KEY \<mapsto> ''1704067201000-ghijkl'']"

text \<open>Storage whose snapshot item is an array with one entry that has no field.\<close>

definition storage_empty_entry :: localStorage where
  "storage_empty_entry = Items [STORAGE_KEY \<mapsto> ''[{}]'']"

section \<open>Identifiers\<close>

text \<open>
  The decimal rendering is injective (it has a left inverse) and never contains the
  separator, so an id determines the millisecond and the random suffix it was built from.
\<close>

lemma decimal_nonempty: "decimal n \<noteq> []"
  by (subst decimal.simps) simp

lemma of_char_digit_char: "d < 10 \<Longrightarrow> (of_char (digit_char d) :: nat) = 48 + d"
  by (simp add: digit_char_def)

lemma digits_value_decimal: "digits_value (decimal n) = n"
proof (induction n rule: decimal.induct)
  case (1 n)
  show ?case
  proof (cases "n < 10")
    case True
    then show ?thesis
      by (subst decimal.simps) (simp add: digits_value_def of_char_digit_char)
  next
    case False
    with 1 have ih: "digits_value (decimal (n div 10)) = n div 10" by simp
    have "digits_value (decimal n) =
        10 * digits_value (decimal (n div 10)) + (of_char (digit_char (n mod 10)) - 48)"
      using False by (subst decimal.simps) (simp add: digits_value_def)
    also have "\<dots> = 10 * (n div 10) + n mod 10"
      by (simp add: ih of_char_digit_char)
    finally show ?thesis by simp
  qed
qed

lemma decimal_inj: "decimal a = decimal b \<Longrightarrow> a = b"
  by (metis digits_value_decimal)

lemma digit_char_not_dash: "d < 10 \<Longrightarrow> digit_char d \<noteq> CHR ''-''"
proof
  assume "d < 10" and "digit_char d = CHR ''-''"
  then have "(of_char (digit_char d) :: nat) = of_char (CHR ''-'')" by simp
  with \<open>d < 10\<close> show False by (simp add: of_char_digit_char)
qed

lemma decimal_no_dash: "CHR ''-'' \<notin> set (decimal n)"
proof (induction n rule: decimal.induct)
  case (1 n)
  show ?case
  proof (cases "n < 10")
    case True
    then show ?thesis using digit_char_not_dash [of n]
      by (subst decimal.simps) auto
  next
    case False
    with 1 have "CHR ''-'' \<notin> set (decimal (n div 10))" by simp
    moreover have "digit_char (n mod 10) \<noteq> CHR ''-''" by (rule digit_char_not_dash) simp
    ultimately show ?thesis using False
      by (subst decimal.simps) auto
  qed
qed

lemma split_at_dash:
  assumes "CHR ''-'' \<notin> set xs" "CHR ''-'' \<notin> set ys" "xs @ CHR ''-'' # s = ys @ CHR ''-'' # t"
  shows "xs = ys \<and> s = t"
proof -
  have "takeWhile (\<lambda>c. c \<noteq> CHR ''-'') (xs @ CHR ''-'' # s) = xs"
    using assms(1) by (induction xs) auto
  moreover have "takeWhile (\<lambda>c. c \<noteq> CHR ''-'') (ys @ CHR ''-'' # t) = ys"
    using assms(2) by (induction ys) auto
  ultimately have "xs = ys" using assms(3) by simp
  with assms(3) show ?thesis by simp
qed

lemma new_id_inj:
  assumes "new_id r = new_id r'"
  shows "date_now r = date_now r' \<and> slice 2 8 (random36 r) = slice 2 8 (random36 r')"
proof -
  from assms have "decimal (date_now r) @ CHR ''-'' # slice 2 8 (random36 r)
      = decimal (date_now r') @ CHR ''-'' # slice 2 8 (random36 r')"
    by (simp add: new_id_def)
  then have "decimal (date_now r) = decimal (date_now r')
      \<and> slice 2 8 (random36 r) = slice 2 8 (random36 r')"
    by (rule split_at_dash [OF decimal_no_dash decimal_no_dash])
  then show ?thesis by (auto dest: decimal_inj)
qed

section \<open>Creating notes\<close>

lemma add_many_Nil: "add_many [] st = st"
  by (simp add: add_many_def)

lemma add_many_snoc: "add_many (rs @ [r]) st = snd (addNote r (add_many rs st))"
  by (simp add: add_many_def)

lemma notes_add_many: "notes (add_many rs st) = map createNote (rev rs) @ notes st"
proof (induction rs rule: rev_induct)
  case Nil
  show ?case by (simp add: add_many_Nil)
next
  case (snoc r rs)
  then show ?case by (simp add: add_many_snoc addNote_def)
qed

lemma selectedId_add_many:
  "selectedId (add_many rs st) = (if rs = [] then selectedId st else Some (new_id (last rs)))"
proof (induction rs rule: rev_induct)
  case Nil
  show ?case by (simp add: add_many_Nil)
next
  case (snoc r rs)
  show ?case by (simp add: add_many_snoc addNote_def)
qed

lemma createNote_id: "get_prop (createNote r) ''id'' = Inr (Str (new_id r))"
  by (simp add: createNote_def)

lemma distinct_created_ids:
  assumes "distinct (map (\<lambda>r. (date_now r, slice 2 8 (random36 r))) rs)"
  shows "distinct (map (\<lambda>n. get_prop n ''id'') (map createNote rs))"
proof -
  from assms have d: "distinct rs"
    and i: "inj_on (\<lambda>r. (date_now r, slice 2 8 (random36 r))) (set rs)"
    by (simp_all only: distinct_map)
  have j: "inj_on (\<lambda>r. get_prop (createNote r) ''id'') (set rs)"
  proof (rule inj_onI)
    fix r r'
    assume r: "r \<in> set rs" and r': "r' \<in> set rs"
      and e: "get_prop (createNote r) ''id'' = get_prop (createNote r') ''id''"
    from e have "new_id r = new_id r'" by (simp only: createNote_id sum.inject jsval.inject)
    from new_id_inj [OF this]
    have "(date_now r, slice 2 8 (random36 r)) = (date_now r', slice 2 8 (random36 r'))"
      by (simp only: prod.inject)
    from inj_onD [OF i this r r'] show "r = r'" .
  qed
  have "map (\<lambda>n. get_prop n ''id'') (map createNote rs) = map (\<lambda>r. get_prop (createNote r) ''id'') rs"
    by (simp only: map_map comp_def)
  moreover have "distinct (map (\<lambda>r. get_prop (createNote r) ''id'') rs)"
    using d j by (simp only: distinct_map simp_thms)
  ultimately show ?thesis by (simp only:)
qed

text \<open>
  C1, as the claim states it, fails: the id is the millisecond of \<^verbatim>\<open>Date.now()\<close> and six
  base-36 digits of \<^verbatim>\<open>Math.random()\<close>, and nothing checks it against the ids in the store.
  Two notes created in the same millisecond with random numbers that agree on those six
  digits get the same id.
\<close>

theorem created_ids_collide:
  "\<not> distinct (map (\<lambda>n. get_prop n ''id'') (notes (add_many [click1, click2] empty_store)))"
  by (simp add: add_many_def addNote_def createNote_def new_id_def slice_def click1_def click2_def)

text \<open>
  C1 (amended). For every state of the store, \<^verbatim>\<open>addNote\<close> builds a note with title
  "Untitled Note", empty body and \<^verbatim>\<open>createdAt\<close> equal to \<^verbatim>\<open>updatedAt\<close>, puts it in front of
  the note sequence, selects its id and returns it. N calls from the empty store give a
  store of N notes whose selection is the id of the note created last, which is the first
  of the sequence. The ids in the store are pairwise distinct whenever the pairs of
  millisecond and random suffix drawn by the N calls are pairwise distinct.
\<close>

theorem create_prepends_and_selects:
  "addNote r st = (new_id r, \<lparr>notes = createNote r # notes st, selectedId = Some (new_id r)\<rparr>)
   \<and> get_prop (createNote r) ''id'' = Inr (Str (new_id r))
   \<and> get_prop (createNote r) ''title'' = Inr (Str ''Untitled Note'')
   \<and> get_prop (createNote r) ''body'' = Inr (Str '''')
   \<and> get_prop (createNote r) ''createdAt'' = Inr (Str (iso_now r))
   \<and> get_prop (createNote r) ''updatedAt'' = get_prop (createNote r) ''createdAt''
   \<and> length (notes (add_many rs empty_store)) = length rs
   \<and> (rs \<noteq> [] \<longrightarrow>
        selectedId (add_many rs empty_store) = Some (new_id (last rs))
        \<and> get_prop (hd (notes (add_many rs empty_store))) ''id'' = Inr (Str (new_id (last rs))))
   \<and> (distinct (map (\<lambda>r. (date_now r, slice 2 8 (random36 r))) rs) \<longrightarrow>
        distinct (map (\<lambda>n. get_prop n ''id'') (notes (add_many rs empty_store))))"
proof -
  have a: "addNote r st =
      (new_id r, \<lparr>notes = createNote r # notes st, selectedId = Some (new_id r)\<rparr>)"
    by (simp add: addNote_def)
  have f: "get_prop (createNote r) ''title'' = Inr (Str ''Untitled Note'')"
      "get_prop (createNote r) ''body'' = Inr (Str '''')"
      "get_prop (createNote r) ''createdAt'' = Inr (Str (iso_now r))"
      "get_prop (createNote r) ''updatedAt'' = get_prop (createNote r) ''createdAt''"
    by (simp_all add: createNote_def)
  have n: "notes (add_many rs empty_store) = map createNote (rev rs)"
    by (simp add: notes_add_many empty_store_def)
  have l: "length (notes (add_many rs empty_store)) = length rs"
    by (simp add: n)
  have s: "rs \<noteq> [] \<longrightarrow>
        selectedId (add_many rs empty_store) = Some (new_id (last rs))
        \<and> get_prop (hd (notes (add_many rs empty_store))) ''id'' = Inr (Str (new_id (last rs)))"
    by (simp add: n selectedId_add_many createNote_id hd_map hd_rev)
  have d: "distinct (map (\<lambda>r. (date_now r, slice 2 8 (random36 r))) rs) \<longrightarrow>
        distinct (map (\<lambda>n. get_prop n ''id'') (notes (add_many rs empty_store)))"
  proof
    assume "distinct (map (\<lambda>r. (date_now r, slice 2 8 (random36 r))) rs)"
    then have "distinct (map (\<lambda>r. (date_now r, slice 2 8 (random36 r))) (rev rs))"
      by (simp add: rev_map [symmetric])
    then show "distinct (map (\<lambda>n. get_prop n ''id'') (notes (add_many rs empty_store)))"
      unfolding n by (rule distinct_created_ids)
  qed
  from a createNote_id f l s d show ?thesis by blast
qed

text \<open>The amended C1 at two clicks a millisecond apart.\<close>

theorem create_prepends_and_selects_witness:
  "[click1, click3] \<noteq> []
   \<and> distinct (map (\<lambda>r. (date_now r, slice 2 8 (random36 r))) [click1, click3])
   \<and> selectedId (add_many [click1, click3] empty_store) = Some (new_id click3)
   \<and> distinct (map (\<lambda>n. get_prop n ''id'') (notes (add_many [click1, click3] empty_store)))
   \<and> length (notes (add_many [click1, click3] empty_store)) = 2"
  using create_prepends_and_selects [of click1 empty_store "[click1, click3]"]
  by (simp add: click1_def click3_def slice_def)

section \<open>Deleting and updating\<close>

text \<open>On a sequence without \<^verbatim>\<open>null\<close> entries the callbacks of \<^verbatim>\<open>filter\<close> and \<^verbatim>\<open>map\<close> do not throw.\<close>

lemma get_prop_total: "not_nullish n \<Longrightarrow> \<exists>v. get_prop n k = Inr v"
  by (cases n) simp_all

lemma filterE_total:
  "(\<And>x. x \<in> set xs \<Longrightarrow> p x = Inr (q x)) \<Longrightarrow> filterE p xs = Inr (filter q xs)"
  by (induction xs) simp_all

lemma mapE_total:
  "(\<And>x. x \<in> set xs \<Longrightarrow> f x = Inr (g x)) \<Longrightarrow> mapE f xs = Inr (map g xs)"
  by (induction xs) simp_all

lemma keep_other_total:
  "not_nullish n \<Longrightarrow> keep_other i n = Inr (get_prop n ''id'' \<noteq> Inr (Str i))"
  by (cases n) (simp_all add: keep_other_def)

lemma deleteNote_total:
  assumes "list_all not_nullish (notes st)"
  shows "deleteNote i st =
      Inr \<lparr>notes = filter (\<lambda>n. get_prop n ''id'' \<noteq> Inr (Str i)) (notes st),
           selectedId = (if selectedId st = Some i then None else selectedId st)\<rparr>"
proof -
  have "filterE (keep_other i) (notes st) = Inr (filter (\<lambda>n. get_prop n ''id'' \<noteq> Inr (Str i)) (notes st))"
    using assms by (intro filterE_total keep_other_total) (simp add: list_all_iff)
  then show ?thesis by (simp add: deleteNote_def)
qed

lemma update_one_other:
  assumes "not_nullish n" "get_prop n ''id'' \<noteq> Inr (Str i)"
  shows "update_one now i u n = Inr n"
  using assms by (cases n) (simp_all add: update_one_def)

lemma updateNote_unknown:
  assumes "list_all not_nullish (notes st)"
    and "list_all (\<lambda>n. get_prop n ''id'' \<noteq> Inr (Str i)) (notes st)"
  shows "updateNote now i u st = Inr st"
proof -
  have "mapE (update_one now i u) (notes st) = Inr (map (\<lambda>n. n) (notes st))"
    using assms by (intro mapE_total update_one_other) (simp_all add: list_all_iff)
  then show ?thesis by (simp add: updateNote_def)
qed

lemma filter_all_unknown:
  "list_all (\<lambda>n. get_prop n ''id'' \<noteq> Inr (Str i)) ns \<Longrightarrow>
   filter (\<lambda>n. get_prop n ''id'' \<noteq> Inr (Str i)) ns = ns"
  by (induction ns) simp_all

text \<open>
  On a \<^verbatim>\<open>null\<close> entry, which a snapshot can hold, reading \<^verbatim>\<open>n.id\<close> throws: this is why the
  statements below are about sequences of note objects.
\<close>

lemma deleteNote_null_entry: "deleteNote i \<lparr>notes = [Null], selectedId = None\<rparr> = Inl TypeError"
  by (simp add: deleteNote_def keep_other_def)

lemma updateNote_null_entry:
  "updateNote now i u \<lparr>notes = [Null], selectedId = None\<rparr> = Inl TypeError"
  by (simp add: updateNote_def update_one_def)

text \<open>
  C2. For every store whose entries are note objects (none is \<^verbatim>\<open>null\<close> or \<^verbatim>\<open>undefined\<close>,
  on which reading \<^verbatim>\<open>n.id\<close> throws) and every id, \<^verbatim>\<open>deleteNote\<close> returns the store whose
  sequence is the old one without the notes of that id, the others as they were and in their
  order; the selection becomes none when it was that id and stays as it was otherwise.
\<close>

theorem delete_removes_and_deselects:
  assumes "list_all not_nullish (notes st)"
  shows "deleteNote i st =
      Inr \<lparr>notes = filter (\<lambda>n. get_prop n ''id'' \<noteq> Inr (Str i)) (notes st),
           selectedId = (if selectedId st = Some i then None else selectedId st)\<rparr>"
  using assms by (rule deleteNote_total)

text \<open>C2 on the scenario store: deleting the selected note B, and deleting A.\<close>

theorem delete_removes_and_deselects_witness:
  "list_all not_nullish (notes store_AB)
   \<and> deleteNote ''1704067201000-ghijkl'' store_AB = Inr \<lparr>notes = [note_A], selectedId = None\<rparr>
   \<and> deleteNote ''1704067200000-abcdef'' store_AB =
       Inr \<lparr>notes = [note_B], selectedId = Some ''1704067201000-ghijkl''\<rparr>"
  using delete_removes_and_deselects [of store_AB "''1704067201000-ghijkl''"]
    delete_removes_and_deselects [of store_AB "''1704067200000-abcdef''"]
  by (simp add: store_AB_def note_A_def note_B_def)

text \<open>
  C4, as the claim states it, fails for \<^verbatim>\<open>deleteNote\<close>: the selection is compared with the
  id whether or not a note has it, and \<^verbatim>\<open>setSelectedId\<close> and the start-up read accept an id
  that no note has. Deleting such an id clears the selection.
\<close>

theorem delete_unknown_clears_dangling_selection:
  "list_all (\<lambda>n. get_prop n ''id'' \<noteq> Inr (Str ''gone'')) (notes store_dangling)
   \<and> selectedId store_dangling = Some ''gone''
   \<and> deleteNote ''gone'' store_dangling = Inr \<lparr>notes = [note_B, note_A], selectedId = None\<rparr>"
  by (simp add: store_dangling_def note_A_def note_B_def deleteNote_def keep_other_def)

text \<open>
  C4 (amended). For every store whose entries are note objects and every id that no note of
  the sequence has, \<^verbatim>\<open>updateNote\<close> (with any updater) returns the store unchanged and
  \<^verbatim>\<open>deleteNote\<close> returns it with the sequence unchanged; neither throws. \<^verbatim>\<open>deleteNote\<close> leaves
  the selection unchanged unless the selection is that id, which it clears.
\<close>

theorem unknown_id_noop:
  assumes "list_all not_nullish (notes st)"
    and "list_all (\<lambda>n. get_prop n ''id'' \<noteq> Inr (Str i)) (notes st)"
  shows "updateNote now i u st = Inr st
    \<and> deleteNote i st =
        Inr (st\<lparr>selectedId := (if selectedId st = Some i then None else selectedId st)\<rparr>)
    \<and> (selectedId st \<noteq> Some i \<longrightarrow> deleteNote i st = Inr st)"
proof -
  have d: "deleteNote i st =
      Inr \<lparr>notes = notes st, selectedId = (if selectedId st = Some i then None else selectedId st)\<rparr>"
    using deleteNote_total [OF assms(1), of i] filter_all_unknown [OF assms(2)] by simp
  show ?thesis using updateNote_unknown [OF assms] d by simp
qed

text \<open>The amended C4 on the scenario store, with an id that no note has.\<close>

theorem unknown_id_noop_witness:
  "list_all not_nullish (notes store_AB)
   \<and> list_all (\<lambda>n. get_prop n ''id'' \<noteq> Inr (Str ''gone'')) (notes store_AB)
   \<and> selectedId store_AB \<noteq> Some ''gone''
   \<and> updateNote ''2024-01-01T00:00:10.000Z'' ''gone'' (Fields (Obj [(''title'', Str ''x'')])) store_AB = Inr store_AB
   \<and> deleteNote ''gone'' store_AB = Inr store_AB"
  using unknown_id_noop [of store_AB "''gone''" "''2024-01-01T00:00:10.000Z''" "Fields (Obj [(''title'', Str ''x'')])"]
  by (simp add: store_AB_def note_A_def note_B_def)

section \<open>Object spread\<close>

lemma assign_Cons: "assign t (kv # s) = assign (AList.update (fst kv) (snd kv) t) s"
  by (simp add: assign_def)

lemma map_of_assign:
  "distinct (map fst s) \<Longrightarrow> map_of (assign t s) = map_of t ++ map_of s"
proof (induction s arbitrary: t)
  case Nil
  show ?case by (simp add: assign_def)
next
  case (Cons kv s)
  obtain k v where kv: "kv = (k, v)" by (cases kv)
  from Cons.prems kv have none: "map_of s k = None" and d: "distinct (map fst s)"
    by (auto simp: map_of_eq_None_iff)
  have "map_of (assign t (kv # s)) = map_of (AList.update k v t) ++ map_of s"
    by (simp only: assign_Cons kv fst_conv snd_conv Cons.IH [OF d])
  also have "\<dots> = (map_of t)(k \<mapsto> v) ++ map_of s"
    by (simp only: update_conv')
  also have "\<dots> = map_of t ++ map_of (kv # s)"
    using none by (auto simp: kv map_add_def fun_eq_iff split: option.splits)
  finally show ?case .
qed

lemma map_of_own_props_Obj: "map_of (own_props (Obj kvs)) = map_of kvs"
  by (simp add: map_of_clearjunk)

lemma map_of_spread_Obj: "map_of (assign [] (own_props (Obj kvs))) = map_of kvs"
  by (simp add: map_of_assign map_of_clearjunk)

lemma get_prop_spread2:
  "get_prop (spread2 (Obj a) (Obj b)) k =
     Inr (case map_of b k of None \<Rightarrow> lookup a k | Some v \<Rightarrow> v)"
  by (simp add: spread2_def map_of_assign map_of_clearjunk map_add_def lookup_def
      split: option.splits)

lemma get_prop_spread_with:
  "get_prop (spread_with (Obj a) k v) k' = Inr (if k' = k then v else lookup a k')"
  by (simp add: spread_with_def update_conv' map_of_assign map_of_clearjunk lookup_def)

lemma spread2_is_Obj: "\<exists>c. spread2 a b = Obj c"
  by (simp add: spread2_def)

lemma id_match_is_Obj: "get_prop n ''id'' = Inr (Str i) \<Longrightarrow> \<exists>kvs. n = Obj kvs"
  by (cases n) simp_all

lemma get_prop_Obj: "get_prop (Obj kvs) k = Inr (lookup kvs k)"
  by (simp add: lookup_def)

text \<open>What \<^verbatim>\<open>updateNote\<close> makes of a matching note when fields are merged.\<close>

lemma update_one_match:
  assumes "get_prop n ''id'' = Inr (Str i)"
  shows "\<exists>n'. update_one now i (Fields (Obj p)) n = Inr n' \<and> not_nullish n'
     \<and> (\<forall>k. get_prop n' k =
           (if k = ''updatedAt'' then Inr (Str now)
            else case map_of p k of None \<Rightarrow> get_prop n k | Some v \<Rightarrow> Inr v))"
proof -
  from assms obtain kvs where n: "n = Obj kvs" by (auto dest: id_match_is_Obj)
  obtain c where c: "spread2 (Obj kvs) (Obj p) = Obj c" using spread2_is_Obj by blast
  have u: "update_one now i (Fields (Obj p)) n = Inr (spread_with (Obj c) ''updatedAt'' (Str now))"
    using assms by (simp add: update_one_def apply_updater_def n c)
  have l: "lookup c k = (case map_of p k of None \<Rightarrow> lookup kvs k | Some v \<Rightarrow> v)" for k
    using get_prop_spread2 [of kvs p k] by (simp add: c lookup_def)
  have gn: "get_prop n k = Inr (lookup kvs k)" for k
    by (simp add: n lookup_def)
  have "get_prop (spread_with (Obj c) ''updatedAt'' (Str now)) k =
           (if k = ''updatedAt'' then Inr (Str now)
            else case map_of p k of None \<Rightarrow> get_prop n k | Some v \<Rightarrow> Inr v)" for k
    using get_prop_spread_with [of c "''updatedAt''" "Str now" k] gn [of k]
    by (simp add: l split: option.splits)
  moreover have "not_nullish (spread_with (Obj c) ''updatedAt'' (Str now))"
    by (simp add: spread_with_def)
  ultimately show ?thesis using u by blast
qed

section \<open>Updating a note\<close>

lemma mapE_list_all2: "mapE f xs = Inr ys \<Longrightarrow> list_all2 (\<lambda>x y. f x = Inr y) xs ys"
  by (induction xs arbitrary: ys) (auto split: sum.splits)

lemma mapE_succeeds:
  "(\<And>x. x \<in> set xs \<Longrightarrow> \<exists>y. f x = Inr y) \<Longrightarrow> \<exists>ys. mapE f xs = Inr ys"
proof (induction xs)
  case Nil
  show ?case by simp
next
  case (Cons x xs)
  then obtain y ys where "f x = Inr y" "mapE f xs = Inr ys" by (meson list.set_intros)
  then show ?case by simp
qed

lemma update_one_fields:
  assumes "not_nullish n"
  shows "\<exists>n'. update_one now i (Fields (Obj p)) n = Inr n' \<and> not_nullish n'
     \<and> (get_prop n ''id'' \<noteq> Inr (Str i) \<longrightarrow> n' = n)
     \<and> (get_prop n ''id'' = Inr (Str i) \<longrightarrow>
          (\<forall>k. get_prop n' k =
             (if k = ''updatedAt'' then Inr (Str now)
              else case map_of p k of None \<Rightarrow> get_prop n k | Some v \<Rightarrow> Inr v)))"
proof (cases "get_prop n ''id'' = Inr (Str i)")
  case True
  with update_one_match [OF True, of now p] show ?thesis by auto
next
  case False
  with update_one_other [OF assms False, of now "Fields (Obj p)"] assms show ?thesis by auto
qed

lemma updateNote_fields:
  assumes "list_all not_nullish (notes st)"
  shows "\<exists>st'. updateNote now i (Fields (Obj p)) st = Inr st'
     \<and> selectedId st' = selectedId st
     \<and> list_all2 (\<lambda>n n'. update_one now i (Fields (Obj p)) n = Inr n') (notes st) (notes st')"
proof -
  have "\<exists>ns. mapE (update_one now i (Fields (Obj p))) (notes st) = Inr ns"
  proof (rule mapE_succeeds)
    fix n assume "n \<in> set (notes st)"
    with assms have "not_nullish n" by (simp add: list_all_iff)
    from update_one_fields [OF this, of now i p]
    show "\<exists>y. update_one now i (Fields (Obj p)) n = Inr y" by blast
  qed
  then obtain ns where ns: "mapE (update_one now i (Fields (Obj p))) (notes st) = Inr ns" ..
  from mapE_list_all2 [OF ns] ns show ?thesis by (simp add: updateNote_def)
qed

text \<open>
  C5. In a store whose entries are note objects, take a note with the id given to
  \<^verbatim>\<open>updateNote\<close>, at any position of the sequence. An update that merges \<^verbatim>\<open>{ title: v }\<close>
  succeeds, sets the note's title, leaves its body as it was and sets its \<^verbatim>\<open>updatedAt\<close> to the
  clock reading of the call; so when that reading is later than the note's previous
  \<^verbatim>\<open>updatedAt\<close> (the clock has ticked since), the new \<^verbatim>\<open>updatedAt\<close> is strictly later than the
  previous one. \<open>getTime\<close> is the platform's reading of a time stamp in milliseconds.
\<close>

theorem title_update_keeps_body:
  assumes "list_all not_nullish (notes st)"
    and "k < length (notes st)"
    and "get_prop (notes st ! k) ''id'' = Inr (Str i)"
    and "get_prop (notes st ! k) ''updatedAt'' = Inr old"
    and "getTime old = Some t0" and "getTime (Str now) = Some t1" and "t0 < t1"
  shows "\<exists>st'. updateNote now i (Fields (Obj [(''title'', v)])) st = Inr st'
     \<and> length (notes st') = length (notes st)
     \<and> get_prop (notes st' ! k) ''title'' = Inr v
     \<and> get_prop (notes st' ! k) ''body'' = get_prop (notes st ! k) ''body''
     \<and> (\<exists>new t. get_prop (notes st' ! k) ''updatedAt'' = Inr new \<and> getTime new = Some t \<and> t0 < t)"
proof -
  let ?u = "Fields (Obj [(''title'', v)])"
  from updateNote_fields [OF assms(1), of now i "[(''title'', v)]"]
  obtain st' where st': "updateNote now i ?u st = Inr st'"
    and all: "list_all2 (\<lambda>n n'. update_one now i ?u n = Inr n') (notes st) (notes st')"
    by blast
  from all have len: "length (notes st') = length (notes st)"
    by (simp add: list_all2_lengthD)
  from list_all2_nthD [OF all assms(2)]
  have one: "update_one now i ?u (notes st ! k) = Inr (notes st' ! k)" .
  from update_one_match [OF assms(3), of now "[(''title'', v)]"] one
  have props: "get_prop (notes st' ! k) key =
           (if key = ''updatedAt'' then Inr (Str now)
            else case map_of [(''title'', v)] key of None \<Rightarrow> get_prop (notes st ! k) key | Some v \<Rightarrow> Inr v)" for key
    by auto
  have "get_prop (notes st' ! k) ''title'' = Inr v"
    and "get_prop (notes st' ! k) ''body'' = get_prop (notes st ! k) ''body''"
    and "get_prop (notes st' ! k) ''updatedAt'' = Inr (Str now)"
    by (simp_all add: props)
  with st' len assms(6,7) show ?thesis by blast
qed

text \<open>C5 on the scenario store: retitling note A, last updated at 00:00:05, at 00:00:10.\<close>

theorem title_update_keeps_body_witness:
  "list_all not_nullish (notes store_AB)
   \<and> Suc 0 < length (notes store_AB)
   \<and> get_prop (notes store_AB ! Suc 0) ''id'' = Inr (Str ''1704067200000-abcdef'')
   \<and> get_prop (notes store_AB ! Suc 0) ''updatedAt'' = Inr (Str ''2024-01-01T00:00:05.000Z'')
   \<and> getTime_example (Str ''2024-01-01T00:00:05.000Z'') = Some 1704067205000
   \<and> getTime_example (Str ''2024-01-01T00:00:10.000Z'') = Some 1704067210000
   \<and> (1704067205000 :: int) < 1704067210000
   \<and> (\<exists>st'. updateNote ''2024-01-01T00:00:10.000Z'' ''1704067200000-abcdef''
               (Fields (Obj [(''title'', Str ''Food'')])) store_AB = Inr st'
          \<and> length (notes st') = length (notes store_AB)
          \<and> get_prop (notes st' ! Suc 0) ''title'' = Inr (Str ''Food'')
          \<and> get_prop (notes st' ! Suc 0) ''body'' = Inr (Str ''milk, eggs'')
          \<and> (\<exists>new t. get_prop (notes st' ! Suc 0) ''updatedAt'' = Inr new
                \<and> getTime_example new = Some t \<and> 1704067205000 < t))"
  using title_update_keeps_body [of store_AB "Suc 0" "''1704067200000-abcdef''"
      "Str ''2024-01-01T00:00:05.000Z''" getTime_example 1704067205000
      "''2024-01-01T00:00:10.000Z''" 1704067210000 "Str ''Food''"]
  by (simp add: store_AB_def note_A_def note_B_def getTime_example_def iso_times_def)

section \<open>The identity of a note\<close>

lemma edits_fields_cases:
  assumes "edits_fields u"
  obtains p where "u = Fields (Obj p)" "map_of p ''id'' = None" "map_of p ''createdAt'' = None"
proof -
  from assms obtain p where u: "u = Fields (Obj p)"
    by (cases u rule: edits_fields.cases) simp_all
  from assms have "\<forall>kv \<in> set p. fst kv \<noteq> ''id'' \<and> fst kv \<noteq> ''createdAt''"
    by (simp add: u list_all_iff)
  then have "''id'' \<notin> fst ` set p" "''createdAt'' \<notin> fst ` set p" by auto
  then have "map_of p ''id'' = None" "map_of p ''createdAt'' = None"
    by (simp_all add: map_of_eq_None_iff)
  with u that show thesis by blast
qed

lemma update_one_identity:
  assumes "not_nullish n" "edits_fields u"
  shows "\<exists>n'. update_one now i u n = Inr n' \<and> not_nullish n' \<and> identity n' = identity n"
proof -
  from assms(2) obtain p where u: "u = Fields (Obj p)"
    and p: "map_of p ''id'' = None" "map_of p ''createdAt'' = None"
    by (rule edits_fields_cases)
  from update_one_fields [OF assms(1), of now i p]
  obtain n' where n': "update_one now i u n = Inr n'" "not_nullish n'"
    and same: "get_prop n ''id'' \<noteq> Inr (Str i) \<longrightarrow> n' = n"
    and props: "get_prop n ''id'' = Inr (Str i) \<longrightarrow>
          (\<forall>k. get_prop n' k =
             (if k = ''updatedAt'' then Inr (Str now)
              else case map_of p k of None \<Rightarrow> get_prop n k | Some v \<Rightarrow> Inr v))"
    unfolding u by blast
  have "identity n' = identity n"
  proof (cases "get_prop n ''id'' = Inr (Str i)")
    case True
    with props have "get_prop n' ''id'' = get_prop n ''id''"
      "get_prop n' ''createdAt'' = get_prop n ''createdAt''"
      by (simp_all add: p)
    then show ?thesis by (simp add: identity_def)
  next
    case False
    with same show ?thesis by simp
  qed
  with n' show ?thesis by blast
qed

lemma mapE_identity:
  assumes "list_all not_nullish ns" "edits_fields u"
  shows "\<exists>ns'. mapE (update_one now i u) ns = Inr ns' \<and> list_all not_nullish ns'
     \<and> map identity ns' = map identity ns"
  using assms(1)
proof (induction ns)
  case Nil
  show ?case by simp
next
  case (Cons n ns)
  then have "not_nullish n" and "list_all not_nullish ns" by simp_all
  from update_one_identity [OF \<open>not_nullish n\<close> assms(2), of now i]
  obtain n' where "update_one now i u n = Inr n'" "not_nullish n'" "identity n' = identity n"
    by blast
  moreover from Cons.IH [OF \<open>list_all not_nullish ns\<close>]
  obtain ns' where "mapE (update_one now i u) ns = Inr ns'" "list_all not_nullish ns'"
    "map identity ns' = map identity ns"
    by blast
  ultimately show ?case by simp
qed

lemma updateNote_identity:
  assumes "list_all not_nullish (notes st)" "edits_fields u"
  shows "\<exists>st'. updateNote now i u st = Inr st' \<and> list_all not_nullish (notes st')
     \<and> map identity (notes st') = map identity (notes st)"
proof -
  from mapE_identity [OF assms, of now i]
  obtain ns' where "mapE (update_one now i u) (notes st) = Inr ns'" "list_all not_nullish ns'"
    "map identity ns' = map identity (notes st)"
    by blast
  then show ?thesis by (simp add: updateNote_def)
qed

lemma not_nullish_createNote: "not_nullish (createNote r)"
  by (simp add: createNote_def)

lemma step_identity:
  assumes "list_all not_nullish (notes st)" "edit_op x"
  shows "\<exists>st'. step x st = Inr st' \<and> list_all not_nullish (notes st')
     \<and> subseq (map identity (notes st'))
          (map identity (map createNote (rev (created [x]))) @ map identity (notes st))"
proof (cases x)
  case (Create r)
  with assms show ?thesis by (simp add: addNote_def not_nullish_createNote)
next
  case (Update now i u)
  with assms(2) have "edits_fields u" by simp
  from updateNote_identity [OF assms(1) this, of now i] Update show ?thesis by auto
next
  case (Delete i)
  have "list_all not_nullish (filter (\<lambda>n. get_prop n ''id'' \<noteq> Inr (Str i)) (notes st))"
    using assms(1) by (simp add: list_all_iff)
  moreover have "subseq (map identity (filter (\<lambda>n. get_prop n ''id'' \<noteq> Inr (Str i)) (notes st)))
      (map identity (notes st))"
    by (intro subseq_map subseq_filter_left)
  ultimately show ?thesis using Delete deleteNote_total [OF assms(1), of i] by simp
next
  case (Select sel)
  with assms show ?thesis by (simp add: setSelectedId_def)
qed

lemma created_Cons: "created (x # xs) = created [x] @ created xs"
  by (cases x) simp_all

lemma run_identity:
  assumes "list_all not_nullish (notes st)" "list_all edit_op xs"
  shows "\<exists>st'. run xs st = Inr st' \<and> list_all not_nullish (notes st')
     \<and> subseq (map identity (notes st'))
          (map identity (map createNote (rev (created xs))) @ map identity (notes st))"
  using assms
proof (induction xs arbitrary: st)
  case Nil
  then show ?case by simp
next
  case (Cons x xs)
  then have x: "edit_op x" and xs: "list_all edit_op xs" by simp_all
  from step_identity [OF Cons.prems(1) x]
  obtain st1 where s1: "step x st = Inr st1" "list_all not_nullish (notes st1)"
    and e1: "subseq (map identity (notes st1))
          (map identity (map createNote (rev (created [x]))) @ map identity (notes st))"
    by blast
  from Cons.IH [OF s1(2) xs]
  obtain st' where s2: "run xs st1 = Inr st'" "list_all not_nullish (notes st')"
    and e2: "subseq (map identity (notes st'))
          (map identity (map createNote (rev (created xs))) @ map identity (notes st1))"
    by blast
  have "subseq (map identity (map createNote (rev (created xs))) @ map identity (notes st1))
      (map identity (map createNote (rev (created xs)))
        @ map identity (map createNote (rev (created [x]))) @ map identity (notes st))"
    using e1 by (intro list_emb_append_mono) simp_all
  with e2 have "subseq (map identity (notes st'))
      (map identity (map createNote (rev (created xs)))
        @ map identity (map createNote (rev (created [x]))) @ map identity (notes st))"
    by (rule subseq_order.trans)
  moreover have "map identity (map createNote (rev (created (x # xs))))
      = map identity (map createNote (rev (created xs))) @ map identity (map createNote (rev (created [x])))"
    by (subst created_Cons) simp
  ultimately have "subseq (map identity (notes st'))
      (map identity (map createNote (rev (created (x # xs)))) @ map identity (notes st))"
    by simp
  with s1 s2 show ?case by simp
qed

text \<open>
  C9. Run any sequence of the store's operations (create, update that merges fields other
  than \<^verbatim>\<open>id\<close> and \<^verbatim>\<open>createdAt\<close>, as the title and body edits do, delete, select) from a store
  whose entries are note objects. No operation throws, and the pairs of \<^verbatim>\<open>id\<close> and
  \<^verbatim>\<open>createdAt\<close> of the final sequence, in order, are a subsequence of the pairs that
  \<^verbatim>\<open>createNote\<close> gave to the notes created on the way, followed by the pairs of the initial
  notes: a note enters the sequence with the pair it was created with, or leaves it, and is
  never given another \<^verbatim>\<open>id\<close> or \<^verbatim>\<open>createdAt\<close>. In particular such an update leaves the pair
  of every note, position by position, as it was.
\<close>

theorem id_and_createdAt_never_change:
  assumes "list_all not_nullish (notes st)" and "list_all edit_op xs"
  shows "(\<exists>st'. run xs st = Inr st'
            \<and> subseq (map identity (notes st'))
                 (map identity (map createNote (rev (created xs))) @ map identity (notes st)))
     \<and> (edits_fields u \<longrightarrow>
          (\<exists>st'. updateNote now i u st = Inr st'
             \<and> map identity (notes st') = map identity (notes st)))"
proof -
  from run_identity [OF assms] have a: "\<exists>st'. run xs st = Inr st'
            \<and> subseq (map identity (notes st'))
                 (map identity (map createNote (rev (created xs))) @ map identity (notes st))"
    by blast
  have b: "edits_fields u \<longrightarrow>
          (\<exists>st'. updateNote now i u st = Inr st'
             \<and> map identity (notes st') = map identity (notes st))"
    using updateNote_identity [OF assms(1), of u now i] by blast
  from a b show ?thesis by (rule conjI)
qed

text \<open>C9 on the scenario store: a note is created, A is retitled, B is deleted, the selection is cleared.\<close>

theorem id_and_createdAt_never_change_witness:
  "list_all not_nullish (notes store_AB)
   \<and> list_all edit_op
        [Create click3,
         Update ''2024-01-01T00:00:10.000Z'' ''1704067200000-abcdef'' (Fields (Obj [(''title'', Str ''Food'')])),
         Delete ''1704067201000-ghijkl'',
         Select None]
   \<and> edits_fields (Fields (Obj [(''body'', Str ''milk'')]))
   \<and> (\<exists>st'. run
               [Create click3,
                Update ''2024-01-01T00:00:10.000Z'' ''1704067200000-abcdef'' (Fields (Obj [(''title'', Str ''Food'')])),
                Delete ''1704067201000-ghijkl'',
                Select None] store_AB = Inr st'
          \<and> subseq (map identity (notes st'))
               (map identity (map createNote [click3]) @ map identity (notes store_AB)))
   \<and> (\<exists>st'. updateNote ''2024-01-01T00:00:10.000Z'' ''1704067200000-abcdef''
               (Fields (Obj [(''body'', Str ''milk'')])) store_AB = Inr st'
          \<and> map identity (notes st') = map identity (notes store_AB))"
proof -
  let ?xs = "[Create click3,
         Update ''2024-01-01T00:00:10.000Z'' ''1704067200000-abcdef'' (Fields (Obj [(''title'', Str ''Food'')])),
         Delete ''1704067201000-ghijkl'',
         Select None]"
  have h1: "list_all not_nullish (notes store_AB)"
    by (simp add: store_AB_def note_A_def note_B_def)
  have h2: "list_all edit_op ?xs" by simp
  have h3: "edits_fields (Fields (Obj [(''body'', Str ''milk'')]))" by simp
  have c: "rev (created ?xs) = [click3]" by simp
  from id_and_createdAt_never_change [OF h1 h2,
      of "Fields (Obj [(''body'', Str ''milk'')])" "''2024-01-01T00:00:10.000Z''" "''1704067200000-abcdef''"]
  show ?thesis unfolding c using h1 h2 h3 by blast
qed

section \<open>Searching and sorting\<close>

lemma str_includes_sublist: "str_includes hay needle = sublist needle hay"
  by (induction hay) (simp_all add: sublist_Cons_right)

lemma toLowerCase_Nil: "toLowerCase [] = []"
  by (simp add: toLowerCase_def)

lemma toLowerCase_eq_Nil: "toLowerCase s = [] \<longleftrightarrow> s = []"
  by (simp add: toLowerCase_def)

lemma field_includes_textual:
  assumes "textual (lookup kvs k)"
  shows "field_includes lower (Obj kvs) k =
     Inr (sublist lower (toLowerCase (text_field (Obj kvs) k)))"
proof -
  define v where "v = lookup kvs k"
  have g: "get_prop (Obj kvs) k = Inr v" by (simp add: v_def lookup_def)
  from assms have "textual v" by (simp add: v_def)
  then show ?thesis
    by (cases v)
      (simp_all add: field_includes_def text_field_def g or_empty_def str_includes_sublist
        toLowerCase_Nil del: get_prop.simps)
qed

lemma note_matches_searchable:
  assumes "searchable n"
  shows "note_matches lower n =
     Inr (sublist lower (toLowerCase (text_field n ''title''))
          \<or> sublist lower (toLowerCase (text_field n ''body'')))"
proof -
  from assms obtain kvs where n: "n = Obj kvs"
    and t: "textual (lookup kvs ''title'')" and b: "textual (lookup kvs ''body'')"
    by (cases n) simp_all
  show ?thesis
    by (simp add: note_matches_def n field_includes_textual [OF t] field_includes_textual [OF b])
qed

lemma filterE_note_matches:
  assumes "list_all searchable ns"
  shows "filterE (note_matches (toLowerCase q)) ns = Inr (filter (note_contains q) ns)"
proof (rule filterE_total)
  fix n assume "n \<in> set ns"
  with assms have "searchable n" by (simp add: list_all_iff)
  then show "note_matches (toLowerCase q) n = Inr (note_contains q n)"
    by (simp add: note_matches_searchable note_contains_def contains_ci_def)
qed

lemma note_contains_empty: "note_contains [] n"
  by (simp add: note_contains_def contains_ci_def toLowerCase_Nil)

text \<open>The data that \<^verbatim>\<open>filtered\<close> hands to the sort.\<close>

lemma filtered_searchable:
  assumes "list_all searchable ns"
  shows "filtered getTime search ns =
     Array_sort (compare_updated getTime) (filter (note_contains (trim search)) ns)"
proof (cases "toLowerCase (trim search) = []")
  case True
  then have "trim search = []" by (simp add: toLowerCase_eq_Nil)
  then have "filter (note_contains (trim search)) ns = ns"
    by (simp add: note_contains_empty)
  with True show ?thesis by (simp add: filtered_def)
next
  case False
  with filterE_note_matches [OF assms, of "trim search"] show ?thesis
    by (simp add: filtered_def)
qed

lemma searchable_not_nullish: "searchable n \<Longrightarrow> not_nullish n"
  by (cases n) simp_all

lemma not_nullish_defined: "list_all not_nullish xs \<Longrightarrow> filter (\<lambda>x. x \<noteq> Undefined) xs = xs"
  by (induction xs) auto

lemma not_nullish_no_undefined: "list_all not_nullish xs \<Longrightarrow> filter (\<lambda>x. x = Undefined) xs = []"
  by (induction xs) auto

lemma Array_sort_not_nullish:
  assumes "list_all not_nullish xs"
  shows "Array_sort cmp xs = sortE cmp xs"
proof (cases "sortE cmp xs")
  case (Inl e)
  then show ?thesis
    by (simp add: Array_sort_def not_nullish_defined [OF assms])
next
  case (Inr s)
  then show ?thesis
    by (simp add: Array_sort_def not_nullish_defined [OF assms] not_nullish_no_undefined [OF assms])
qed

text \<open>The sort is a permutation whenever it returns, and it returns when the comparator does.\<close>

lemma insertE_mset: "insertE cmp x ys = Inr r \<Longrightarrow> mset r = add_mset x (mset ys)"
proof (induction ys arbitrary: r)
  case Nil
  then show ?case by auto
next
  case (Cons y ys)
  from Cons.prems obtain d where d: "cmp x y = Inr d"
    by (cases "cmp x y") simp_all
  show ?case
  proof (cases "positive d")
    case True
    with Cons.prems d obtain r' where r': "insertE cmp x ys = Inr r'" and r: "r = y # r'"
      by (cases "insertE cmp x ys") auto
    from Cons.IH [OF r'] r show ?thesis by simp
  next
    case False
    with Cons.prems d have "r = x # y # ys" by simp
    then show ?thesis by simp
  qed
qed

lemma sortE_mset: "sortE cmp xs = Inr ys \<Longrightarrow> mset ys = mset xs"
proof (induction xs arbitrary: ys)
  case Nil
  then show ?case by simp
next
  case (Cons x xs)
  from Cons.prems obtain s where s: "sortE cmp xs = Inr s" and i: "insertE cmp x s = Inr ys"
    by (cases "sortE cmp xs") simp_all
  from insertE_mset [OF i] Cons.IH [OF s] show ?case by simp
qed

lemma insertE_succeeds:
  assumes "\<And>y. y \<in> set ys \<Longrightarrow> \<exists>d. cmp x y = Inr d"
  shows "\<exists>r. insertE cmp x ys = Inr r"
  using assms
proof (induction ys)
  case Nil
  show ?case by simp
next
  case (Cons y ys)
  have "\<exists>d. cmp x y = Inr d" by (rule Cons.prems) simp
  then obtain d where d: "cmp x y = Inr d" ..
  have "\<exists>r. insertE cmp x ys = Inr r"
  proof (rule Cons.IH)
    fix z assume "z \<in> set ys"
    then show "\<exists>d. cmp x z = Inr d" by (intro Cons.prems) simp
  qed
  then obtain r where "insertE cmp x ys = Inr r" ..
  with d show ?case by simp
qed

lemma sortE_succeeds:
  assumes "\<And>x y. x \<in> set xs \<Longrightarrow> y \<in> set xs \<Longrightarrow> \<exists>d. cmp x y = Inr d"
  shows "\<exists>ys. sortE cmp xs = Inr ys"
  using assms
proof (induction xs)
  case Nil
  show ?case by simp
next
  case (Cons x xs)
  have "\<exists>s. sortE cmp xs = Inr s"
  proof (rule Cons.IH)
    fix a b assume "a \<in> set xs" "b \<in> set xs"
    then show "\<exists>d. cmp a b = Inr d" by (intro Cons.prems) simp_all
  qed
  then obtain s where s: "sortE cmp xs = Inr s" ..
  from sortE_mset [OF s] have "set_mset (mset s) = set_mset (mset xs)" by simp
  then have sets: "set s = set xs" by simp
  have "\<exists>r. insertE cmp x s = Inr r"
  proof (rule insertE_succeeds)
    fix y assume "y \<in> set s"
    with sets have "y \<in> set xs" by simp
    then show "\<exists>d. cmp x y = Inr d" by (intro Cons.prems) simp_all
  qed
  then obtain r where "insertE cmp x s = Inr r" ..
  with s show ?case by simp
qed

lemma compare_updated_total:
  assumes "not_nullish a" "not_nullish b"
  shows "\<exists>d. compare_updated getTime a b = Inr d"
proof -
  from get_prop_total [OF assms(1)] obtain ua where "get_prop a ''updatedAt'' = Inr ua" ..
  moreover from get_prop_total [OF assms(2)] obtain ub where "get_prop b ''updatedAt'' = Inr ub" ..
  ultimately show ?thesis by (simp add: compare_updated_def)
qed

lemma Array_sort_total:
  assumes "list_all not_nullish xs"
  shows "\<exists>ys. Array_sort (compare_updated getTime) xs = Inr ys \<and> mset ys = mset xs"
proof -
  have "\<exists>ys. sortE (compare_updated getTime) xs = Inr ys"
  proof (rule sortE_succeeds)
    fix x y assume "x \<in> set xs" "y \<in> set xs"
    with assms have "not_nullish x" "not_nullish y" by (simp_all add: list_all_iff)
    then show "\<exists>d. compare_updated getTime x y = Inr d" by (rule compare_updated_total)
  qed
  then obtain ys where ys: "sortE (compare_updated getTime) xs = Inr ys" ..
  from sortE_mset [OF ys] ys show ?thesis by (simp add: Array_sort_not_nullish [OF assms])
qed

text \<open>With valid dates the comparator is a consistent ordering and the sort is the stable
  sort by descending time.\<close>

lemma compare_updated_dated:
  assumes "dated getTime a" "dated getTime b"
  shows "compare_updated getTime a b = Inr (Some (updated_ms getTime b - updated_ms getTime a))"
  using assms
  by (auto simp: dated_def compare_updated_def updated_ms_def split: sum.splits option.splits)

lemma insertE_dated:
  assumes "dated getTime x" "list_all (dated getTime) ys"
  shows "insertE (compare_updated getTime) x ys =
     Inr (insort_key (\<lambda>n. - updated_ms getTime n) x ys)"
  using assms(2)
proof (induction ys)
  case Nil
  show ?case by simp
next
  case (Cons y ys)
  then have y: "dated getTime y" and ys: "list_all (dated getTime) ys" by simp_all
  show ?case
    by (simp add: compare_updated_dated [OF assms(1) y] positive_def Cons.IH [OF ys])
qed

lemma sortE_dated:
  assumes "list_all (dated getTime) xs"
  shows "sortE (compare_updated getTime) xs = Inr (sort_key (\<lambda>n. - updated_ms getTime n) xs)"
  using assms
proof (induction xs)
  case Nil
  show ?case by simp
next
  case (Cons x xs)
  then have x: "dated getTime x" and xs: "list_all (dated getTime) xs" by simp_all
  have "list_all (dated getTime) (sort_key (\<lambda>n. - updated_ms getTime n) xs)"
    using xs by (simp add: list_all_iff)
  from insertE_dated [OF x this] Cons.IH [OF xs] show ?case by simp
qed

lemma filtered_dated:
  assumes "list_all searchable ns" "list_all (dated getTime) ns"
  shows "filtered getTime search ns =
     Inr (sort_key (\<lambda>n. - updated_ms getTime n) (filter (note_contains (trim search)) ns))"
proof -
  let ?ms = "filter (note_contains (trim search)) ns"
  from assms(1) have "list_all not_nullish ?ms"
    by (auto simp: list_all_iff dest: searchable_not_nullish)
  moreover from assms(2) have "list_all (dated getTime) ?ms"
    by (simp add: list_all_iff)
  ultimately show ?thesis
    by (simp add: filtered_searchable [OF assms(1)] Array_sort_not_nullish sortE_dated)
qed

lemma text_field_nullish:
  "get_prop n k = Inr Undefined \<or> get_prop n k = Inr Null \<Longrightarrow> text_field n k = []"
  by (auto simp: text_field_def)

lemma contains_ci_Nil: "contains_ci q [] \<longleftrightarrow> q = []"
  by (simp add: contains_ci_def toLowerCase_Nil toLowerCase_eq_Nil)

lemma contains_ci_empty: "contains_ci [] s"
  by (simp add: contains_ci_def toLowerCase_Nil)

text \<open>
  A title that is neither a string nor falsy has no \<^verbatim>\<open>toLowerCase\<close>: the filter throws on
  it. The statements below are about notes whose title and body are strings, \<^verbatim>\<open>null\<close> or
  missing.
\<close>

lemma filtered_number_title: "filtered getTime ''a'' [Obj [(''title'', Num 5)]] = Inl TypeError"
  by (simp add: filtered_def trim_def is_space_def toLowerCase_def lower_char_def
      note_matches_def field_includes_def or_empty_def)

text \<open>
  C3, as the claim states it, fails: the query is trimmed before it is matched
  (\<^verbatim>\<open>search.trim().toLowerCase()\<close>). With a space typed after "eggs", note A is returned,
  and neither its title nor its body contains "eggs " as a case-insensitive substring.
\<close>

theorem search_trims_query:
  "filtered getTime_example ''eggs '' [note_B, note_A] = Inr [note_A]
   \<and> \<not> note_contains ''eggs '' note_A"
proof -
  have "filtered getTime_example ''eggs '' [note_B, note_A] = Inr [note_A]"
    by (simp add: filtered_def trim_def is_space_def toLowerCase_def lower_char_def
        note_A_def note_B_def note_matches_def field_includes_def or_empty_def Array_sort_def
        lookup_def)
  moreover have "\<not> note_contains ''eggs '' note_A"
    by (simp add: note_contains_def contains_ci_def text_field_def note_A_def toLowerCase_def
        lower_char_def sublist_Cons_right lookup_def)
  ultimately show ?thesis by (rule conjI)
qed

text \<open>
  C3 (amended). For every sequence of note objects whose title and body are strings (or
  \<^verbatim>\<open>null\<close> or missing, read as empty) and whose \<^verbatim>\<open>updatedAt\<close> is a valid date, and for every
  query string, the search derivation returns exactly the notes whose title or body
  contains the trimmed query as a case-insensitive substring (a query that is empty after
  trimming matches all notes), ordered by \<^verbatim>\<open>updatedAt\<close> descending, with notes of equal
  \<^verbatim>\<open>updatedAt\<close> kept in their input-sequence order.
\<close>

theorem search_filters_and_sorts:
  assumes "list_all searchable ns" and "list_all (dated getTime) ns"
  shows "\<exists>res. filtered getTime search ns = Inr res
     \<and> mset res = mset (filter (note_contains (trim search)) ns)
     \<and> sorted_wrt (\<lambda>a b. updated_ms getTime b \<le> updated_ms getTime a) res
     \<and> (\<forall>t. filter (\<lambda>n. updated_ms getTime n = t) res
             = filter (\<lambda>n. updated_ms getTime n = t) (filter (note_contains (trim search)) ns))"
proof -
  let ?f = "\<lambda>n. - updated_ms getTime n"
  let ?ms = "filter (note_contains (trim search)) ns"
  let ?res = "sort_key ?f ?ms"
  have r: "filtered getTime search ns = Inr ?res"
    using assms by (rule filtered_dated)
  have m: "mset ?res = mset ?ms" by simp
  have "sorted (map ?f ?res)" by (rule sorted_sort_key)
  then have s: "sorted_wrt (\<lambda>a b. updated_ms getTime b \<le> updated_ms getTime a) ?res"
    by (simp add: sorted_map)
  have st: "filter (\<lambda>n. updated_ms getTime n = t) ?res = filter (\<lambda>n. updated_ms getTime n = t) ?ms" for t
    using sort_key_stable [of ?f "- t" ?ms] by simp
  from r m s st show ?thesis by blast
qed

text \<open>
  The amended C3 on the scenario notes, A before B in the input, with a query of one space:
  both notes are returned, B (updated later) first.
\<close>

theorem search_filters_and_sorts_witness:
  "list_all searchable [note_A, note_B]
   \<and> list_all (dated getTime_example) [note_A, note_B]
   \<and> filtered getTime_example '' '' [note_A, note_B] = Inr [note_B, note_A]
   \<and> (\<exists>res. filtered getTime_example '' '' [note_A, note_B] = Inr res
          \<and> mset res = mset (filter (note_contains (trim '' '')) [note_A, note_B])
          \<and> sorted_wrt (\<lambda>a b. updated_ms getTime_example b \<le> updated_ms getTime_example a) res
          \<and> (\<forall>t. filter (\<lambda>n. updated_ms getTime_example n = t) res
             = filter (\<lambda>n. updated_ms getTime_example n = t)
                 (filter (note_contains (trim '' '')) [note_A, note_B])))"
proof -
  have h1: "list_all searchable [note_A, note_B]"
    by (simp add: note_A_def note_B_def lookup_def)
  have h2: "list_all (dated getTime_example) [note_A, note_B]"
    by (simp add: note_A_def note_B_def dated_def getTime_example_def iso_times_def lookup_def)
  have e: "filtered getTime_example '' '' [note_A, note_B] = Inr [note_B, note_A]"
    by (simp add: filtered_def trim_def is_space_def toLowerCase_def Array_sort_def
        compare_updated_def positive_def note_A_def note_B_def getTime_example_def iso_times_def
        lookup_def)
  from search_filters_and_sorts [OF h1 h2, of "'' ''"] h1 h2 e show ?thesis by blast
qed

text \<open>
  C10. For every sequence of note objects whose title and body are each a string, \<^verbatim>\<open>null\<close>
  or missing, the search derivation returns a result for every query (it does not throw,
  whatever the \<^verbatim>\<open>updatedAt\<close> fields hold). A note whose title is missing or \<^verbatim>\<open>null\<close> is in the
  result exactly when the query, trimmed as the derivation reads it, is empty or is
  contained in the body as a case-insensitive substring; likewise with title and body
  exchanged. So a missing field counts as the empty string.
\<close>

theorem search_total_on_missing_fields:
  assumes "list_all searchable ns"
  shows "\<exists>res. filtered getTime search ns = Inr res
     \<and> (\<forall>n \<in> set ns. get_prop n ''title'' = Inr Undefined \<or> get_prop n ''title'' = Inr Null \<longrightarrow>
            (n \<in> set res \<longleftrightarrow> trim search = [] \<or> contains_ci (trim search) (text_field n ''body'')))
     \<and> (\<forall>n \<in> set ns. get_prop n ''body'' = Inr Undefined \<or> get_prop n ''body'' = Inr Null \<longrightarrow>
            (n \<in> set res \<longleftrightarrow> trim search = [] \<or> contains_ci (trim search) (text_field n ''title'')))"
proof -
  let ?q = "trim search"
  let ?ms = "filter (note_contains ?q) ns"
  from assms have "list_all not_nullish ?ms"
    by (auto simp: list_all_iff dest: searchable_not_nullish)
  from Array_sort_total [OF this, of getTime]
  obtain res where res: "Array_sort (compare_updated getTime) ?ms = Inr res"
    and m: "mset res = mset ?ms" by blast
  from m have "set_mset (mset res) = set_mset (mset ?ms)" by simp
  then have sets: "set res = {n \<in> set ns. note_contains ?q n}" by simp
  have r: "filtered getTime search ns = Inr res"
    by (simp add: filtered_searchable [OF assms] res)
  have t: "n \<in> set res \<longleftrightarrow> ?q = [] \<or> contains_ci ?q (text_field n ''body'')"
    if "n \<in> set ns" "get_prop n ''title'' = Inr Undefined \<or> get_prop n ''title'' = Inr Null" for n
    using that contains_ci_empty [of "text_field n ''body''"]
    by (auto simp: sets note_contains_def text_field_nullish contains_ci_Nil)
  have b: "n \<in> set res \<longleftrightarrow> ?q = [] \<or> contains_ci ?q (text_field n ''title'')"
    if "n \<in> set ns" "get_prop n ''body'' = Inr Undefined \<or> get_prop n ''body'' = Inr Null" for n
    using that contains_ci_empty [of "text_field n ''title''"]
    by (auto simp: sets note_contains_def text_field_nullish contains_ci_Nil)
  from r t b show ?thesis by blast
qed

text \<open>
  C10 on a note without a title and a note whose body is \<^verbatim>\<open>null\<close>, searched for "MILK":
  the first is found through its body, the second is not found.
\<close>

theorem search_total_on_missing_fields_witness:
  "list_all searchable [note_untitled, note_bodyless]
   \<and> get_prop note_untitled ''title'' = Inr Undefined
   \<and> get_prop note_bodyless ''body'' = Inr Null
   \<and> trim ''MILK'' \<noteq> []
   \<and> contains_ci (trim ''MILK'') (text_field note_untitled ''body'')
   \<and> \<not> contains_ci (trim ''MILK'') (text_field note_bodyless ''title'')
   \<and> (\<exists>res. filtered getTime_example ''MILK'' [note_untitled, note_bodyless] = Inr res
          \<and> note_untitled \<in> set res \<and> note_bodyless \<notin> set res)"
proof -
  have h: "list_all searchable [note_untitled, note_bodyless]"
    by (simp add: note_untitled_def note_bodyless_def lookup_def)
  have t: "get_prop note_untitled ''title'' = Inr Undefined"
    and b: "get_prop note_bodyless ''body'' = Inr Null"
    by (simp_all add: note_untitled_def note_bodyless_def lookup_def)
  have q: "trim ''MILK'' = ''MILK''"
    by (simp add: trim_def is_space_def)
  have c1: "contains_ci ''MILK'' (text_field note_untitled ''body'')"
    by (simp add: contains_ci_def text_field_def note_untitled_def toLowerCase_def lower_char_def
        sublist_Cons_right lookup_def)
  have c2: "\<not> contains_ci ''MILK'' (text_field note_bodyless ''title'')"
    by (simp add: contains_ci_def text_field_def note_bodyless_def toLowerCase_def lower_char_def
        sublist_Cons_right lookup_def)
  from search_total_on_missing_fields [OF h, of getTime_example "''MILK''"]
  obtain res where r: "filtered getTime_example ''MILK'' [note_untitled, note_bodyless] = Inr res"
    and tt: "\<forall>n \<in> set [note_untitled, note_bodyless].
        get_prop n ''title'' = Inr Undefined \<or> get_prop n ''title'' = Inr Null \<longrightarrow>
        (n \<in> set res \<longleftrightarrow> trim ''MILK'' = [] \<or> contains_ci (trim ''MILK'') (text_field n ''body''))"
    and bb: "\<forall>n \<in> set [note_untitled, note_bodyless].
        get_prop n ''body'' = Inr Undefined \<or> get_prop n ''body'' = Inr Null \<longrightarrow>
        (n \<in> set res \<longleftrightarrow> trim ''MILK'' = [] \<or> contains_ci (trim ''MILK'') (text_field n ''title''))"
    by blast
  from tt t c1 have m1: "note_untitled \<in> set res" by (simp add: q)
  from bb b c2 have m2: "note_bodyless \<notin> set res" by (simp add: q)
  from h t b c1 c2 r m1 m2 show ?thesis by (simp add: q)
qed

section \<open>Loading and persisting\<close>

lemma initial_selectedId_Items:
  "initial_selectedId (Items m) = Inr (stored_selection (m SELECTED_KEY))"
  by (simp add: initial_selectedId_def stored_selection_def)

lemma load_Items:
  "load parse (Items m) =
     Inr \<lparr>notes = initial_notes parse (Items m), selectedId = stored_selection (m SELECTED_KEY)\<rparr>"
  by (simp add: load_def initial_selectedId_Items)

lemma initial_notes_unusable:
  "unusable parse (m STORAGE_KEY) \<Longrightarrow> initial_notes parse (Items m) = []"
  by (cases "m STORAGE_KEY")
    (auto simp: unusable_def initial_notes_def read_notes_def split: sum.splits jsval.splits)

lemma initial_notes_array:
  assumes "m STORAGE_KEY = Some s" "s \<noteq> []" "parse s = Inr (Arr xs)"
  shows "initial_notes parse (Items m) = xs"
  using assms by (simp add: initial_notes_def read_notes_def)

text \<open>
  When the browser denies access to the storage, the notes initialiser catches the error
  and the selection initialiser does not: the first call of the hook throws.
\<close>

lemma load_Denied: "load parse Denied = Inl SecurityError"
  by (simp add: load_def initial_selectedId_def)

lemma key_differs: "SELECTED_KEY \<noteq> STORAGE_KEY" "STORAGE_KEY \<noteq> SELECTED_KEY"
  by (simp_all add: SELECTED_KEY_def STORAGE_KEY_def)

text \<open>The selection effect leaves the snapshot item alone, whether or not its write goes through.\<close>

lemma persist_selected_keeps:
  "\<exists>m'. persist_selected fits sel (Items m) = Items m' \<and> m' STORAGE_KEY = m STORAGE_KEY"
  by (cases sel) (simp_all add: persist_selected_def key_differs)

text \<open>
  C7, as the claim states it, fails: the selection is read from its own item, whatever the
  snapshot item holds. After a session that selected note B, a snapshot that was cut off
  and no longer parses loads as no notes, with B's id still selected.
\<close>

theorem load_keeps_selection_of_lost_snapshot:
  "getItem storage_truncated STORAGE_KEY = Inr (Some truncated_snapshot)
   \<and> parse_example truncated_snapshot = Inl SyntaxError
   \<and> load parse_example storage_truncated =
       Inr \<lparr>notes = [], selectedId = Some ''1704067201000-ghijkl''\<rparr>"
  by (simp add: storage_truncated_def key_differs load_Items initial_notes_def read_notes_def
      stored_selection_def parse_example_def json_texts_def truncated_snapshot_def
      note_A_def note_B_def quoted_def)

text \<open>
  C7 (amended). For every content of a storage that can be read, the first call of the hook
  returns a state and raises nothing. Its note sequence is empty whenever the snapshot
  item is absent, empty, unparsable or not an array. Its selection is what the selection
  item holds, whatever the snapshot item holds: none exactly when that item is absent or
  empty.
\<close>

theorem load_never_fails:
  "\<exists>st. load parse (Items m) = Inr st
     \<and> selectedId st = stored_selection (m SELECTED_KEY)
     \<and> (unusable parse (m STORAGE_KEY) \<longrightarrow> notes st = [])"
  by (simp add: load_Items initial_notes_unusable)

text \<open>The amended C7 on a storage that holds the cut-off snapshot and no selection item.\<close>

theorem load_never_fails_witness:
  "unusable parse_example ([STORAGE_KEY \<mapsto> truncated_snapshot] STORAGE_KEY)
   \<and> stored_selection ([STORAGE_KEY \<mapsto> truncated_snapshot] SELECTED_KEY) = None
   \<and> load parse_example (Items [STORAGE_KEY \<mapsto> truncated_snapshot]) = Inr empty_store"
proof -
  have u: "unusable parse_example ([STORAGE_KEY \<mapsto> truncated_snapshot] STORAGE_KEY)"
    by (simp add: unusable_def parse_example_def json_texts_def truncated_snapshot_def
        note_A_def note_B_def quoted_def)
  have s: "stored_selection ([STORAGE_KEY \<mapsto> truncated_snapshot] SELECTED_KEY) = None"
    by (simp add: stored_selection_def key_differs)
  from load_never_fails [of parse_example "[STORAGE_KEY \<mapsto> truncated_snapshot]"] u s
  show ?thesis by (auto simp: empty_store_def)
qed

text \<open>
  C8, as the claim states it, fails: the initialiser returns the parsed array as it is and
  looks at no entry. A snapshot whose one entry has no field at all loads as that entry.
\<close>

theorem load_keeps_malformed_entry:
  "parse_example ''[{}]'' = Inr (Arr [Obj []])
   \<and> load parse_example storage_empty_entry = Inr \<lparr>notes = [Obj []], selectedId = None\<rparr>
   \<and> \<not> well_formed (Obj [])"
  by (simp add: storage_empty_entry_def key_differs load_Items initial_notes_def read_notes_def
      stored_selection_def parse_example_def json_texts_def)

text \<open>
  C8 (amended). For every persisted snapshot that parses to an array, loading does not fail
  and the loaded note sequence is that array, entry by entry and in order: no entry is
  discarded, malformed or not.
\<close>

theorem load_returns_parsed_array:
  assumes "m STORAGE_KEY = Some s" and "s \<noteq> []" and "parse s = Inr (Arr xs)"
  shows "load parse (Items m) =
     Inr \<lparr>notes = xs, selectedId = stored_selection (m SELECTED_KEY)\<rparr>"
  using assms by (simp add: load_Items initial_notes_array)

text \<open>The amended C8 on a snapshot whose one entry is \<^verbatim>\<open>null\<close>.\<close>

theorem load_returns_parsed_array_witness:
  "[STORAGE_KEY \<mapsto> ''[null]''] STORAGE_KEY = Some ''[null]''
   \<and> ''[null]'' \<noteq> []
   \<and> parse_example ''[null]'' = Inr (Arr [Null])
   \<and> load parse_example (Items [STORAGE_KEY \<mapsto> ''[null]'']) =
       Inr \<lparr>notes = [Null], selectedId = None\<rparr>"
proof -
  have p: "parse_example ''[null]'' = Inr (Arr [Null])"
    by (simp add: parse_example_def json_texts_def)
  from load_returns_parsed_array [of "[STORAGE_KEY \<mapsto> ''[null]'']" "''[null]''" parse_example "[Null]"] p
  show ?thesis by (simp add: stored_selection_def key_differs)
qed

section \<open>JSON written and read back\<close>

lemma hex_value_hex_char: "d < 16 \<Longrightarrow> hex_value (hex_char d) = Some d"
proof -
  assume "d < 16"
  then have "d = 0 \<or> d = 1 \<or> d = 2 \<or> d = 3 \<or> d = 4 \<or> d = 5 \<or> d = 6 \<or> d = 7
      \<or> d = 8 \<or> d = 9 \<or> d = 10 \<or> d = 11 \<or> d = 12 \<or> d = 13 \<or> d = 14 \<or> d = 15"
    by arith
  then show ?thesis
    by (elim disjE) (simp_all add: hex_value_def hex_char_def)
qed

lemma code_unit_control:
  assumes "n < 32"
  shows "code_unit (CHR ''0'') (CHR ''0'') (hex_char (n div 16)) (hex_char (n mod 16)) = Some n"
proof -
  from assms have "n div 16 < 16" by simp
  then have a: "hex_value (hex_char (n div 16)) = Some (n div 16)" by (rule hex_value_hex_char)
  have b: "hex_value (hex_char (n mod 16)) = Some (n mod 16)" by (rule hex_value_hex_char) simp
  have z: "hex_value (CHR ''0'') = Some 0" by (simp add: hex_value_def)
  show ?thesis by (simp add: code_unit_def a b z)
qed

lemma utf8_of_char_control: "(of_char c :: nat) < 32 \<Longrightarrow> utf8 (of_char c) = [c]"
  by (simp add: utf8_def)

text \<open>Reading an escaped character gives the character back.\<close>

lemma read_chars_escape:
  assumes "read_chars t = Some (s, rest)"
  shows "read_chars (escape_char c @ t) = Some (c # s, rest)"
proof -
  consider "c = CHR 0x22" | "c = CHR 0x5C" | "c = CHR 0x08" | "c = CHR 0x09" | "c = CHR 0x0A"
    | "c = CHR 0x0C" | "c = CHR 0x0D"
    | "c \<notin> {CHR 0x22, CHR 0x5C, CHR 0x08, CHR 0x09, CHR 0x0A, CHR 0x0C, CHR 0x0D}" "(of_char c :: nat) < 32"
    | "c \<notin> {CHR 0x22, CHR 0x5C, CHR 0x08, CHR 0x09, CHR 0x0A, CHR 0x0C, CHR 0x0D}" "\<not> (of_char c :: nat) < 32"
    by blast
  then show ?thesis
  proof cases
    case 8
    then have e: "escape_char c = [CHR 0x5C, CHR ''u'', CHR ''0'', CHR ''0'',
        hex_char (of_char c div 16), hex_char (of_char c mod 16)]"
      by (simp add: escape_char_def)
    show ?thesis
      by (simp add: e code_unit_control [OF 8(2)] utf8_of_char_control [OF 8(2)] assms)
  next
    case 9
    then have e: "escape_char c = [c]" by (simp add: escape_char_def)
    from 9 show ?thesis by (simp add: e assms)
  qed (simp_all add: escape_char_def unescape_def assms)
qed

lemma read_chars_quote:
  "read_chars (concat (map escape_char s) @ CHR 0x22 # rest) = Some (s, rest)"
proof (induction s)
  case Nil
  show ?case by simp
next
  case (Cons c s)
  from read_chars_escape [OF Cons.IH, of c] show ?case by simp
qed

lemma quote_json_append: "quote_json s @ rest = CHR 0x22 # concat (map escape_char s) @ CHR 0x22 # rest"
  by (simp add: quote_json_def)

lemma read_scalar_text:
  assumes "scalar v"
  shows "read_scalar (scalar_text v @ rest) = Some (v, rest)"
  using assms
proof (cases v)
  case (Str s)
  then show ?thesis by (simp add: read_scalar_def quote_json_append read_chars_quote)
next
  case (Bool b)
  then show ?thesis by (cases b) (simp_all add: read_scalar_def)
next
  case Null
  then show ?thesis by (simp add: read_scalar_def)
qed simp_all

lemma read_member_text:
  assumes "scalar (snd kv)"
  shows "read_member (member_json kv @ rest) = Some (kv, rest)"
proof -
  have "member_json kv @ rest =
      CHR 0x22 # concat (map escape_char (fst kv)) @ CHR 0x22 # CHR '':'' # scalar_text (snd kv) @ rest"
    by (simp add: member_json_def quote_json_def)
  then show ?thesis
    by (simp add: read_member_def read_chars_quote read_scalar_text [OF assms])
qed

lemma read_members_text:
  assumes "ms \<noteq> []" "list_all (\<lambda>kv. scalar (snd kv)) ms" "length ms \<le> n"
  shows "read_members n (join '','' (map member_json ms) @ CHR ''}'' # rest) = Some (ms, rest)"
  using assms
proof (induction ms arbitrary: n)
  case Nil
  then show ?case by simp
next
  case (Cons m ms)
  from Cons.prems obtain n' where n: "n = Suc n'" and le: "length ms \<le> n'"
    by (cases n) simp_all
  from Cons.prems have m: "scalar (snd m)" and all: "list_all (\<lambda>kv. scalar (snd kv)) ms"
    by simp_all
  show ?case
  proof (cases ms)
    case Nil
    then show ?thesis by (simp add: n read_member_text [OF m])
  next
    case (Cons m' ms')
    then have ne: "ms \<noteq> []" by simp
    have "join '','' (map member_json (m # ms)) @ CHR ''}'' # rest
        = member_json m @ CHR '','' # join '','' (map member_json ms) @ CHR ''}'' # rest"
      by (simp add: Cons)
    then show ?thesis
      by (simp add: n read_member_text [OF m] Cons.IH [OF ne all le])
  qed
qed

lemma length_join:
  assumes "\<And>x. x \<in> set xs \<Longrightarrow> x \<noteq> []"
  shows "length xs \<le> length (join sep xs)"
  using assms
proof (induction sep xs rule: join.induct)
  case (1 sep)
  show ?case by simp
next
  case (2 sep x)
  then have "x \<noteq> []" by simp
  then show ?case by (cases x) simp_all
next
  case (3 sep x y ys)
  then have "x \<noteq> []" by simp
  moreover from 3 have "length (y # ys) \<le> length (join sep (y # ys))" by simp
  ultimately show ?case by (cases x) simp_all
qed

lemma member_json_starts: "\<exists>t. member_json kv = CHR 0x22 # t"
  by (simp add: member_json_def quote_json_def)

lemma member_json_nonempty: "member_json kv \<noteq> []"
  by (simp add: member_json_def quote_json_def)

lemma join_starts:
  assumes "xs \<noteq> []" "\<exists>t. hd xs = c # t"
  shows "\<exists>t. join sep xs = c # t"
proof (cases xs)
  case Nil
  with assms show ?thesis by simp
next
  case (Cons x ys)
  with assms obtain t where "x = c # t" by auto
  with Cons show ?thesis by (cases ys) simp_all
qed

lemma update_append: "k \<notin> fst ` set al \<Longrightarrow> AList.update k v al = al @ [(k, v)]"
  by (induction al) auto

lemma assign_distinct: "distinct (map fst (t @ s)) \<Longrightarrow> assign t s = t @ s"
proof (induction s arbitrary: t)
  case Nil
  show ?case by (simp add: assign_def)
next
  case (Cons kv s)
  obtain k v where kv: "kv = (k, v)" by (cases kv)
  from Cons.prems have k: "k \<notin> fst ` set t" and d: "distinct (map fst ((t @ [(k, v)]) @ s))"
    by (auto simp: kv)
  have "assign t (kv # s) = assign (t @ [(k, v)]) s"
    by (simp add: assign_def kv update_append [OF k])
  with Cons.IH [OF d] show ?case by (simp add: kv)
qed

lemma scalar_defined: "list_all (\<lambda>kv. scalar (snd kv)) kvs \<Longrightarrow> filter (\<lambda>kv. snd kv \<noteq> Undefined) kvs = kvs"
  by (induction kvs) auto

lemma value_text_flat:
  assumes "distinct (map fst kvs)" "list_all (\<lambda>kv. scalar (snd kv)) kvs"
  shows "value_text (Obj kvs) = CHR ''{'' # join '','' (map member_json kvs) @ ''}''"
proof -
  have c: "AList.clearjunk kvs = kvs" using assms(1) by (rule distinct_clearjunk_id)
  have f: "filter (\<lambda>kv. snd kv \<noteq> Undefined) (AList.clearjunk kvs) = kvs"
    unfolding c using assms(2) by (rule scalar_defined)
  show ?thesis by (simp only: value_text.simps f) simp
qed

lemma read_value_brace:
  assumes "cs = CHR 0x22 # cs'"
  shows "read_value (CHR ''{'' # cs) =
     (case read_members (length cs) cs of
        None \<Rightarrow> None
      | Some (ms, rest) \<Rightarrow> Some (Obj (assign [] ms), rest))"
  by (simp add: read_value_def assms)

lemma read_value_flat:
  assumes "flat_object n"
  shows "read_value (value_text n @ rest) = Some (n, rest)"
proof -
  from assms obtain kvs where n: "n = Obj kvs" and d: "distinct (map fst kvs)"
    and s: "list_all (\<lambda>kv. scalar (snd kv)) kvs"
    by (cases n) simp_all
  let ?t = "join '','' (map member_json kvs) @ CHR ''}'' # rest"
  have v: "value_text n @ rest = CHR ''{'' # ?t"
    by (simp add: n value_text_flat [OF d s] del: value_text.simps)
  show ?thesis
  proof (cases "kvs = []")
    case True
    then have "read_value (CHR ''{'' # ?t) = Some (Obj kvs, rest)"
      by (simp add: read_value_def)
    then show ?thesis unfolding v by (simp only: n)
  next
    case False
    then have "map member_json kvs \<noteq> []" by simp
    moreover have "\<exists>t. hd (map member_json kvs) = CHR 0x22 # t"
      using False member_json_starts by (cases kvs) simp_all
    ultimately obtain t where j: "join '','' (map member_json kvs) = CHR 0x22 # t"
      using join_starts by blast
    have "length (map member_json kvs) \<le> length (join '','' (map member_json kvs))"
    proof (rule length_join)
      fix x assume "x \<in> set (map member_json kvs)"
      then show "x \<noteq> []" by (auto simp: member_json_nonempty)
    qed
    then have le: "length kvs \<le> length ?t" by simp
    have r: "read_members (length ?t) ?t = Some (kvs, rest)"
      using False s le by (rule read_members_text)
    have a: "assign [] kvs = kvs" using d by (simp add: assign_distinct)
    have t: "?t = CHR 0x22 # t @ CHR ''}'' # rest" by (simp add: j)
    have "read_value (CHR ''{'' # ?t) = Some (Obj kvs, rest)"
      by (simp only: read_value_brace [OF t] r a option.case prod.case)
    then show ?thesis unfolding v by (simp only: n)
  qed
qed

lemma value_text_starts:
  assumes "flat_object n"
  shows "\<exists>t. value_text n = CHR ''{'' # t"
proof -
  from assms obtain kvs where n: "n = Obj kvs" by (cases n) simp_all
  show ?thesis by (simp add: n)
qed

lemma read_elements_text:
  assumes "ns \<noteq> []" "list_all flat_object ns" "length ns \<le> k"
  shows "read_elements k (join '','' (map value_text ns) @ CHR '']'' # rest) = Some (ns, rest)"
  using assms
proof (induction ns arbitrary: k)
  case Nil
  then show ?case by simp
next
  case (Cons n ns)
  from Cons.prems obtain k' where k: "k = Suc k'" and le: "length ns \<le> k'"
    by (cases k) simp_all
  from Cons.prems have n: "flat_object n" and all: "list_all flat_object ns"
    by simp_all
  show ?case
  proof (cases ns)
    case Nil
    then show ?thesis by (simp add: k read_value_flat [OF n] del: value_text.simps)
  next
    case (Cons n' ns')
    then have ne: "ns \<noteq> []" by simp
    have "join '','' (map value_text (n # ns)) @ CHR '']'' # rest
        = value_text n @ CHR '','' # join '','' (map value_text ns) @ CHR '']'' # rest"
      by (simp add: Cons del: value_text.simps)
    then show ?thesis
      by (simp add: k read_value_flat [OF n] Cons.IH [OF ne all le] del: value_text.simps)
  qed
qed

lemma read_json_bracket:
  assumes "cs = CHR ''{'' # cs'"
  shows "read_json (CHR ''['' # cs) =
     (case read_elements (length cs) cs of
        None \<Rightarrow> None
      | Some (vs, rest) \<Rightarrow> Some (Arr vs, rest))"
  by (simp add: read_json_def assms)

text \<open>What \<^verbatim>\<open>JSON.stringify\<close> writes of a sequence of flat objects, \<^verbatim>\<open>JSON.parse\<close> reads back.\<close>

lemma JSON_parse_stringify:
  assumes "list_all flat_object ns"
  shows "JSON_parse (JSON_stringify (Arr ns)) = Inr (Arr ns)"
proof (cases "ns = []")
  case True
  then show ?thesis by (simp add: JSON_parse_def read_json_def)
next
  case False
  let ?t = "join '','' (map value_text ns) @ '']''"
  have s: "JSON_stringify (Arr ns) = CHR ''['' # ?t" by simp
  from False obtain n ns' where ns: "ns = n # ns'" by (cases ns) auto
  with assms have "flat_object n" by simp
  then obtain u where u: "value_text n = CHR ''{'' # u" using value_text_starts by blast
  have "map value_text ns \<noteq> []" using False by simp
  moreover have "\<exists>t. hd (map value_text ns) = CHR ''{'' # t" using u by (simp add: ns)
  ultimately obtain t where j: "join '','' (map value_text ns) = CHR ''{'' # t"
    using join_starts by blast
  have t: "?t = CHR ''{'' # (t @ '']'')" by (simp add: j)
  have "length (map value_text ns) \<le> length (join '','' (map value_text ns))"
  proof (rule length_join)
    fix x assume "x \<in> set (map value_text ns)"
    then obtain m where "m \<in> set ns" "x = value_text m" by auto
    with assms have "flat_object m" by (simp add: list_all_iff)
    with \<open>x = value_text m\<close> show "x \<noteq> []" using value_text_starts by fastforce
  qed
  then have le: "length ns \<le> length ?t" by simp
  have r: "read_elements (length ?t) ?t = Some (ns, [])"
    using read_elements_text [OF False assms le, of "[]"] by simp
  have "read_json (CHR ''['' # ?t) = Some (Arr ns, [])"
    by (simp only: read_json_bracket [OF t] r option.case prod.case)
  then show ?thesis by (simp only: s JSON_parse_def option.case prod.case) simp
qed

lemma JSON_stringify_nonempty: "JSON_stringify (Arr ns) \<noteq> []"
  by simp

text \<open>The notes that \<^verbatim>\<open>createNote\<close> builds are well-formed.\<close>

lemma createNote_well_formed: "well_formed_note (createNote r)"
  by (simp add: well_formed_note_def createNote_def)

text \<open>
  On the short texts of the examples the table used there agrees with \<^const>\<open>JSON_parse\<close>.
\<close>

lemma parse_example_agrees:
  "JSON_parse ''[]'' = parse_example ''[]''"
  "JSON_parse ''[{}]'' = parse_example ''[{}]''"
  "JSON_parse ''[null]'' = parse_example ''[null]''"
  "JSON_parse ''{}'' = parse_example ''{}''"
  by (simp_all add: JSON_parse_def read_json_def read_value_def read_scalar_def
      parse_example_def json_texts_def)

text \<open>
  Loading after persisting, for any \<^verbatim>\<open>stringify\<close> and \<^verbatim>\<open>parse\<close> that read the array back: the
  effect writes under the key that the initialiser reads, the text is not empty, the
  parsed value is an array and is returned as it is.
\<close>

lemma load_after_persist:
  assumes "fits (m(STORAGE_KEY \<mapsto> stringify (Arr ns)))"
    and "stringify (Arr ns) \<noteq> []"
    and "parse (stringify (Arr ns)) = Inr (Arr ns)"
  shows "load parse (persist_notes stringify fits ns (Items m)) =
           Inr \<lparr>notes = ns, selectedId = stored_selection (m SELECTED_KEY)\<rparr>"
    and "\<exists>st. load parse (persist_selected fits sel (persist_notes stringify fits ns (Items m))) = Inr st
           \<and> notes st = ns"
proof -
  let ?m = "m(STORAGE_KEY \<mapsto> stringify (Arr ns))"
  have p: "persist_notes stringify fits ns (Items m) = Items ?m"
    using assms(1) by (simp add: persist_notes_def)
  have n: "initial_notes parse (Items ?m) = ns"
    using assms(2,3) by (intro initial_notes_array) simp_all
  show "load parse (persist_notes stringify fits ns (Items m)) =
           Inr \<lparr>notes = ns, selectedId = stored_selection (m SELECTED_KEY)\<rparr>"
    by (simp add: p load_Items n key_differs)
  from persist_selected_keeps [of fits sel ?m]
  obtain m' where m': "persist_selected fits sel (Items ?m) = Items m'"
    and k: "m' STORAGE_KEY = ?m STORAGE_KEY" by blast
  have n': "initial_notes parse (Items m') = ns"
    using assms(2,3) k by (intro initial_notes_array) simp_all
  show "\<exists>st. load parse (persist_selected fits sel (persist_notes stringify fits ns (Items m))) = Inr st
           \<and> notes st = ns"
    by (simp add: p m' load_Items n')
qed

lemma well_formed_note_flat: "list_all well_formed_note ns \<Longrightarrow> list_all flat_object ns"
  by (simp add: list_all_iff well_formed_note_def)

text \<open>
  C6. For every sequence of well-formed notes, persist it to a storage that accepts the
  write, then load: the loaded store holds the same notes, as many and with the same
  contents, whether or not the selection effect has run in between. The text written is
  what \<^verbatim>\<open>JSON.stringify\<close> makes of the sequence, and \<^verbatim>\<open>JSON.parse\<close> reads it back.
\<close>

theorem persist_then_load:
  assumes "list_all well_formed_note ns"
    and "fits (m(STORAGE_KEY \<mapsto> JSON_stringify (Arr ns)))"
  shows "(\<exists>st. load JSON_parse (persist_notes JSON_stringify fits ns (Items m)) = Inr st
            \<and> notes st = ns \<and> length (notes st) = length ns)
     \<and> (\<exists>st. load JSON_parse
                (persist_selected fits sel (persist_notes JSON_stringify fits ns (Items m))) = Inr st
            \<and> notes st = ns \<and> length (notes st) = length ns)"
proof -
  from assms(1) have "list_all flat_object ns" by (rule well_formed_note_flat)
  then have r: "JSON_parse (JSON_stringify (Arr ns)) = Inr (Arr ns)"
    by (rule JSON_parse_stringify)
  note l = load_after_persist [of fits m JSON_stringify ns JSON_parse,
      OF assms(2) JSON_stringify_nonempty r]
  from l(1) have a: "\<exists>st. load JSON_parse (persist_notes JSON_stringify fits ns (Items m)) = Inr st
            \<and> notes st = ns \<and> length (notes st) = length ns"
    by simp
  from l(2) [of sel] have b: "\<exists>st. load JSON_parse
                (persist_selected fits sel (persist_notes JSON_stringify fits ns (Items m))) = Inr st
            \<and> notes st = ns \<and> length (notes st) = length ns"
    by auto
  from a b show ?thesis by (rule conjI)
qed

text \<open>
  C6 on the scenario notes, persisted to an empty storage without a quota, with and without
  the selection of note B written after them.
\<close>

theorem persist_then_load_witness:
  "list_all well_formed_note [note_B, note_A]
   \<and> (\<exists>st. load JSON_parse
              (persist_notes JSON_stringify (\<lambda>m. True) [note_B, note_A] (Items Map.empty)) = Inr st
          \<and> notes st = [note_B, note_A] \<and> length (notes st) = length [note_B, note_A])
   \<and> (\<exists>st. load JSON_parse
              (persist_selected (\<lambda>m. True) (Some ''1704067201000-ghijkl'')
                (persist_notes JSON_stringify (\<lambda>m. True) [note_B, note_A] (Items Map.empty))) = Inr st
          \<and> notes st = [note_B, note_A] \<and> length (notes st) = length [note_B, note_A])"
proof -
  have w: "list_all well_formed_note [note_B, note_A]"
    by (simp add: well_formed_note_def note_A_def note_B_def)
  from persist_then_load [OF w, of "\<lambda>m. True" Map.empty "Some ''1704067201000-ghijkl''"] w
  show ?thesis by simp
qed

end
